theory Spec2Isabelle
  imports Complex_Main
begin

section \<open>Python values used by SiteScan\_Image\_Formatter\_Source.py\<close>

text \<open>
  The script computes with Python \<^verbatim>\<open>float\<close>s (IEEE 754 binary64) and unbounded
  \<^verbatim>\<open>int\<close>s. A finite float is modelled by the rational number it denotes; the two
  zeros are identified (the script never distinguishes them: both compare equal to 0 and
  both are rendered as a text whose value is 0).
\<close>

datatype pyfloat = Fin rat | PInf | NInf | NaN

datatype pynum = PyInt int | PyFloat pyfloat

datatype error = IndexError | ValueError | OverflowError | ExifError | OSError

subsection \<open>Rounding\<close>

text \<open>Round to the nearest integer, ties to the even one (Python's \<^verbatim>\<open>round\<close>).\<close>

definition rhe :: "rat \<Rightarrow> int" where
  "rhe x =
     (let f = \<lfloor>x\<rfloor>; d = x - of_int f
      in if d < 1 / 2 then f
         else if 1 / 2 < d then f + 1
         else if even f then f else f + 1)"

text \<open>\<open>ndigits b n\<close> is the number of base-\<open>b\<close> digits of a positive integer \<open>n\<close>.\<close>

function ndigits :: "int \<Rightarrow> int \<Rightarrow> nat" where
  "ndigits b n = (if 1 < b \<and> 0 < n then Suc (ndigits b (n div b)) else 0)"
  by pat_completeness auto
termination
proof (relation "measure (\<lambda>(b, n). nat n)")
  show "wf (measure (\<lambda>(b, n). nat n))" by simp
next
  fix b n :: int
  assume "1 < b \<and> 0 < n"
  then have "n div b < n" by (simp add: int_div_less_self)
  with \<open>1 < b \<and> 0 < n\<close> show "((b, n div b), (b, n)) \<in> measure (\<lambda>(b, n). nat n)" by simp
qed

declare ndigits.simps [simp del]

text \<open>\<open>ilog b x\<close> is \<open>\<lfloor>log\<^sub>b x\<rfloor>\<close> for a positive rational \<open>x\<close>, computed from the
  digit counts of numerator and denominator.\<close>

definition ilog :: "int \<Rightarrow> rat \<Rightarrow> int" where
  "ilog b x =
     (let (p, q) = quotient_of x;
          e = int (ndigits b p) - int (ndigits b q)
      in if of_int b powi e \<le> x then e else e - 1)"

text \<open>
  \<open>fl x\<close> is the binary64 number nearest to \<open>x\<close> (ties to even): 53 significant bits,
  least exponent \<open>-1022\<close> (below it the spacing stays \<open>2\<^sup>-\<^sup>1\<^sup>0\<^sup>7\<^sup>4\<close>). Overflow to infinity is not
  part of \<open>fl\<close>: every product and difference the script rounds is below 3600.
\<close>

definition fl :: "rat \<Rightarrow> rat" where
  "fl x =
     (if x = 0 then 0
      else let e = max (ilog 2 \<bar>x\<bar>) (- 1022); u = 2 powi (e - 52)
           in of_int (rhe (x / u)) * u)"

definition binary64 :: "rat \<Rightarrow> bool" where
  "binary64 x \<longleftrightarrow> fl x = x \<and> \<bar>x\<bar> < 2 ^ 1024"

text \<open>\<^verbatim>\<open>round(x, 5)\<close> on a finite float: the decimal with five fractional digits nearest
  to the exact value of \<open>x\<close> (ties to even), read back as a float.\<close>

definition round5 :: "rat \<Rightarrow> rat" where
  "round5 x = fl (of_int (rhe (x * 100000)) / 100000)"

text \<open>\<^verbatim>\<open>int(x)\<close> on a float truncates towards zero and raises on infinities and NaN.\<close>

definition trunc :: "rat \<Rightarrow> int" where
  "trunc x = (if 0 \<le> x then \<lfloor>x\<rfloor> else \<lceil>x\<rceil>)"

definition py_int :: "pyfloat \<Rightarrow> error + int" where
  "py_int v = (case v of Fin x \<Rightarrow> Inr (trunc x) | NaN \<Rightarrow> Inl ValueError | _ \<Rightarrow> Inl OverflowError)"

text \<open>\<^verbatim>\<open>round(x)\<close> with one argument returns an \<^verbatim>\<open>int\<close>, ties to even.\<close>

definition py_round :: "pyfloat \<Rightarrow> error + int" where
  "py_round v = (case v of Fin x \<Rightarrow> Inr (rhe x) | NaN \<Rightarrow> Inl ValueError | _ \<Rightarrow> Inl OverflowError)"

text \<open>\<^verbatim>\<open>xs[i]\<close> with Python's rule for a negative \<open>i\<close>, which counts from the end of
  the list; an index outside both ranges raises IndexError.\<close>

definition py_index :: "'a list \<Rightarrow> int \<Rightarrow> error + 'a" where
  "py_index xs i =
     (if 0 \<le> i \<and> i < int (length xs) then Inr (xs ! nat i)
      else if i < 0 \<and> - int (length xs) \<le> i then Inr (xs ! nat (int (length xs) + i))
      else Inl IndexError)"

subsection \<open>The text of a float\<close>

text \<open>
  \<^verbatim>\<open>str(x)\<close> of a finite float is the shortest decimal that reads back as \<open>x\<close>, and the
  one nearest to \<open>x\<close> among those of that length. Of the decimals with \<open>n\<close> significant
  digits only the two next to \<open>x\<close>, one on each side, can read back as \<open>x\<close>; the floats
  below a power of two lie closer together than those above it, so the farther of the two may
  read back when the nearer does not. \<open>shortest x E n k\<close> tries \<open>n\<close>, \<open>n + 1\<close>, ...
  significant digits (\<open>k\<close> attempts), at each length the nearer decimal first;
  \<open>repr_val x\<close> is the number that text denotes. Seventeen digits always suffice for a
  binary64 number.
\<close>

definition other_int :: "rat \<Rightarrow> int \<Rightarrow> int" where
  "other_int r a = (if of_int a < r then a + 1 else if r < of_int a then a - 1 else a)"

fun shortest :: "rat \<Rightarrow> int \<Rightarrow> nat \<Rightarrow> nat \<Rightarrow> rat" where
  "shortest x E n 0 = x"
| "shortest x E n (Suc k) =
     (let q = 10 powi (E - int n + 1); a = rhe (x / q); b = other_int (x / q) a;
          da = of_int a * q; db = of_int b * q
      in if fl da = x then da else if fl db = x then db else shortest x E (Suc n) k)"

definition repr_val :: "rat \<Rightarrow> rat" where
  "repr_val x = (if x = 0 then 0 else shortest x (ilog 10 \<bar>x\<bar>) 1 17)"

section \<open>CoordinateEncoder\<close>

text \<open>\<^verbatim>\<open>to_deg(value, loc)\<close>. The statements run in the source's order, so an index
  error of \<^verbatim>\<open>loc\<close> comes before the error of \<^verbatim>\<open>int(abs_value)\<close>. Once
  \<^verbatim>\<open>int(abs_value)\<close> has returned, the value is finite, and every difference and product
  is a binary64 operation: the exact result, rounded by \<open>fl\<close>.\<close>

definition pyabs :: "pyfloat \<Rightarrow> pyfloat" where
  "pyabs v = (case v of Fin x \<Rightarrow> Fin \<bar>x\<bar> | NaN \<Rightarrow> NaN | _ \<Rightarrow> PInf)"

definition lt0 :: "pyfloat \<Rightarrow> bool" where
  "lt0 v = (case v of Fin x \<Rightarrow> x < 0 | NInf \<Rightarrow> True | _ \<Rightarrow> False)"

definition gt0 :: "pyfloat \<Rightarrow> bool" where
  "gt0 v = (case v of Fin x \<Rightarrow> 0 < x | PInf \<Rightarrow> True | _ \<Rightarrow> False)"

definition to_deg :: "pyfloat \<Rightarrow> string list \<Rightarrow> error + (int \<times> int \<times> rat \<times> string)" where
  "to_deg v loc =
     (case (if lt0 v then py_index loc 0
            else if gt0 v then py_index loc 1
            else Inr '''') of
        Inl e \<Rightarrow> Inl e
      | Inr loc_value \<Rightarrow>
          (case py_int (pyabs v) of
             Inl e \<Rightarrow> Inl e
           | Inr deg \<Rightarrow>
               (let abs_value = (case v of Fin x \<Rightarrow> \<bar>x\<bar> | _ \<Rightarrow> 0);
                    t1 = fl (fl (abs_value - of_int deg) * 60);
                    mn = trunc t1;
                    sec = round5 (fl (fl (t1 - of_int mn) * 60))
                in Inr (deg, mn, sec, loc_value))))"

text \<open>\<^verbatim>\<open>change_to_rational(number)\<close> is \<^verbatim>\<open>Fraction(str(number))\<close>: the exact value of
  the text, in lowest terms with a positive denominator. The texts \<^verbatim>\<open>inf\<close> and
  \<^verbatim>\<open>nan\<close> are not fractions.\<close>

definition change_to_rational :: "pynum \<Rightarrow> error + (int \<times> int)" where
  "change_to_rational number =
     (case number of
        PyInt n \<Rightarrow> Inr (quotient_of (of_int n))
      | PyFloat (Fin x) \<Rightarrow> Inr (quotient_of (repr_val x))
      | PyFloat _ \<Rightarrow> Inl ValueError)"

section \<open>BatchTagger\<close>

subsection \<open>The GPS block and the collaborators\<close>

text \<open>The dictionary \<^verbatim>\<open>gps_ifd\<close> of \<^verbatim>\<open>set_gps_location\<close>, one field per key.\<close>

record gps_ifd =
  GPSVersionID :: "nat \<times> nat \<times> nat \<times> nat"
  GPSAltitudeRef :: nat
  GPSAltitude :: "int \<times> int"
  GPSLatitudeRef :: string
  GPSLatitude :: "(int \<times> int) \<times> (int \<times> int) \<times> (int \<times> int)"
  GPSLongitudeRef :: string
  GPSLongitude :: "(int \<times> int) \<times> (int \<times> int) \<times> (int \<times> int)"

text \<open>
  The file system maps a path to what is there: an image with the GPS block last inserted
  into it (if any), another regular file with its text, or a directory.
\<close>

datatype node = Image "gps_ifd option" | Text string | Dir

type_synonym filesys = "string \<Rightarrow> node option"

text \<open>
  What the script takes from outside itself is a parameter of the model:
  \<^verbatim>\<open>os.path.join\<close>, the builtin \<^verbatim>\<open>float\<close> (\<open>None\<close> when it raises ValueError),
  whether \<^verbatim>\<open>piexif.dump\<close> accepts a block, and whether \<^verbatim>\<open>open(p, "w")\<close> succeeds.
\<close>

record collab =
  path_join :: "string \<Rightarrow> string \<Rightarrow> string"
  py_float :: "string \<Rightarrow> pyfloat option"
  dump_ok :: "gps_ifd \<Rightarrow> bool"
  can_write :: "string \<Rightarrow> bool"

definition bind :: "error + 'a \<Rightarrow> ('a \<Rightarrow> error + 'b) \<Rightarrow> error + 'b" where
  "bind m f = (case m of Inl e \<Rightarrow> Inl e | Inr x \<Rightarrow> f x)"

text \<open>Lines 63 to 77 of \<^verbatim>\<open>set_gps_location\<close>: the block handed to piexif.\<close>

definition gps_block :: "pyfloat \<Rightarrow> pyfloat \<Rightarrow> pyfloat \<Rightarrow> error + gps_ifd" where
  "gps_block lat lng altitude =
     bind (to_deg lat [''S'', ''N'']) (\<lambda>(lat_d, lat_m, lat_s, lat_ref).
     bind (to_deg lng [''W'', ''E'']) (\<lambda>(lng_d, lng_m, lng_s, lng_ref).
     bind (change_to_rational (PyInt lat_d)) (\<lambda>a0.
     bind (change_to_rational (PyInt lat_m)) (\<lambda>a1.
     bind (change_to_rational (PyFloat (Fin lat_s))) (\<lambda>a2.
     bind (change_to_rational (PyInt lng_d)) (\<lambda>b0.
     bind (change_to_rational (PyInt lng_m)) (\<lambda>b1.
     bind (change_to_rational (PyFloat (Fin lng_s))) (\<lambda>b2.
     bind (py_round altitude) (\<lambda>alt.
     bind (change_to_rational (PyInt alt)) (\<lambda>alt_r.
       Inr \<lparr>GPSVersionID = (2, 0, 0, 0),
            GPSAltitudeRef = 1,
            GPSAltitude = alt_r,
            GPSLatitudeRef = lat_ref,
            GPSLatitude = (a0, a1, a2),
            GPSLongitudeRef = lng_ref,
            GPSLongitude = (b0, b1, b2)\<rparr>))))))))))"

text \<open>\<^verbatim>\<open>piexif.insert\<close> replaces the metadata of an image file and raises on anything else.\<close>

definition piexif_insert :: "gps_ifd \<Rightarrow> string \<Rightarrow> filesys \<Rightarrow> error + filesys" where
  "piexif_insert g file_name files =
     (case files file_name of
        Some (Image _) \<Rightarrow> Inr (files(file_name \<mapsto> Image (Some g)))
      | _ \<Rightarrow> Inl ExifError)"

definition set_gps_location ::
  "collab \<Rightarrow> string \<Rightarrow> pyfloat \<Rightarrow> pyfloat \<Rightarrow> pyfloat \<Rightarrow> filesys \<Rightarrow> error + filesys" where
  "set_gps_location c file_name lat lng altitude files =
     bind (gps_block lat lng altitude) (\<lambda>g.
       if dump_ok c g then piexif_insert g file_name files else Inl ExifError)"

subsection \<open>The error report\<close>

definition newline :: char where
  "newline = CHR 0x0A"

text \<open>\<^verbatim>\<open>write_list_to_file\<close>: remove the file if it is there, open it for writing, write
  every entry and a newline after it. Removing a directory raises, and so may opening;
  the file system is returned as the exception leaves it. The text of the file is what
  was written to the text stream, before the platform's translation of newlines.\<close>

definition write_list_to_file ::
  "collab \<Rightarrow> string list \<Rightarrow> string \<Rightarrow> filesys \<Rightarrow> filesys \<times> error option" where
  "write_list_to_file c inList csvFile files =
     (if files csvFile = Some Dir then (files, Some OSError)
      else let files1 = (if files csvFile \<noteq> None then files(csvFile := None) else files)
           in if \<not> can_write c csvFile then (files1, Some OSError)
              else (files1(csvFile \<mapsto> Text (fold (\<lambda>entries buf. buf @ entries @ [newline]) inList [])),
                    None))"

subsection \<open>The batch\<close>

fun str_nat :: "nat \<Rightarrow> string" where
  "str_nat n =
     (if n < 10 then [''0123456789'' ! n]
      else str_nat (n div 10) @ [''0123456789'' ! (n mod 10)])"

declare str_nat.simps [simp del]

definition skipped_msg :: "string \<Rightarrow> string" where
  "skipped_msg name = ''Skipped '' @ name @ '' as file does not exist in Source Image Folder Location''"

record args =
  sourceImageFolder :: string
  errorLogCSV :: string
  img_Name_Column :: int
  Lat_Y_Column :: int
  Long_X_Column :: int
  Alt_Z_Column :: int

text \<open>The state of a run: the file system, what was printed, and the list \<^verbatim>\<open>failedFiles\<close>.\<close>

record state =
  files :: filesys
  stdout :: "string list"
  failedFiles :: "string list"

text \<open>\<^verbatim>\<open>float(row[i])\<close>.\<close>

definition float_at :: "collab \<Rightarrow> string list \<Rightarrow> int \<Rightarrow> error + pyfloat" where
  "float_at c row i =
     bind (py_index row i) (\<lambda>txt. case py_float c txt of None \<Rightarrow> Inl ValueError | Some v \<Rightarrow> Inr v)"

text \<open>The body of the loop (lines 134 to 140) for one row. The result is the state
  reached and the exception raised, if any.\<close>

definition do_row :: "collab \<Rightarrow> args \<Rightarrow> string list \<Rightarrow> state \<Rightarrow> state \<times> error option" where
  "do_row c a row s =
     (case py_index row (img_Name_Column a) of
        Inl e \<Rightarrow> (s, Some e)
      | Inr name \<Rightarrow>
          (let imgFile = path_join c (sourceImageFolder a) name
           in if files s imgFile = None
              then (s\<lparr>stdout := stdout s @ [skipped_msg name],
                      failedFiles := failedFiles s @ [name]\<rparr>, None)
              else (let s1 = s\<lparr>stdout := stdout s @ [imgFile]\<rparr>
                    in case bind (float_at c row (Lat_Y_Column a)) (\<lambda>lat.
                            bind (float_at c row (Long_X_Column a)) (\<lambda>lng.
                            bind (float_at c row (Alt_Z_Column a)) (\<lambda>alt.
                              set_gps_location c imgFile lat lng alt (files s1)))) of
                         Inl e \<Rightarrow> (s1, Some e)
                       | Inr files' \<Rightarrow> (s1\<lparr>files := files'\<rparr>, None))))"

fun rows_loop :: "collab \<Rightarrow> args \<Rightarrow> string list list \<Rightarrow> state \<Rightarrow> state \<times> error option" where
  "rows_loop c a [] s = (s, None)"
| "rows_loop c a (row # rows) s =
     (case do_row c a row s of
        (s', Some e) \<Rightarrow> (s', Some e)
      | (s', None) \<Rightarrow> rows_loop c a rows s')"

text \<open>\<^verbatim>\<open>next(readCSV, None)\<close> drops the first row and does nothing on an empty table.\<close>

definition skip_header :: "'a list \<Rightarrow> 'a list" where
  "skip_header rows = (case rows of [] \<Rightarrow> [] | header # rest \<Rightarrow> rest)"

text \<open>Lines 141 to 145: the report, written only when a file was missed.\<close>

definition report :: "collab \<Rightarrow> args \<Rightarrow> state \<Rightarrow> state \<times> error option" where
  "report c a s =
     (if length (failedFiles s) \<noteq> 0 then
        (let s1 = s\<lparr>stdout := stdout s @
                    [''could not locate '' @ str_nat (length (failedFiles s)) @ '' files at path specified'',
                     ''appending names of failed files to CSV to errorLog '' @ errorLogCSV a]\<rparr>
         in case write_list_to_file c (failedFiles s1) (errorLogCSV a) (files s1) of
              (files', Some e) \<Rightarrow> (s1\<lparr>files := files'\<rparr>, Some e)
            | (files', None) \<Rightarrow>
                (s1\<lparr>files := files',
                    stdout := stdout s1 @
                      [''see '' @ errorLogCSV a @ '' for list of failed files... locate the files and reprocess'']\<rparr>,
                 None))
      else (s, None))"

text \<open>\<^verbatim>\<open>main\<close>, on the rows that \<^verbatim>\<open>csv.reader\<close> yields for the table (opening and
  parsing the table file is the reader's work and is not modelled). The result is the state
  at the end, with \<^verbatim>\<open>failedFiles\<close> as it is just before \<^verbatim>\<open>del\<close>, and the exception that
  left \<^verbatim>\<open>main\<close>, if any.\<close>

definition main :: "collab \<Rightarrow> args \<Rightarrow> string list list \<Rightarrow> filesys \<Rightarrow> state \<times> error option" where
  "main c a table files0 =
     (case rows_loop c a (skip_header table) \<lparr>files = files0, stdout = [], failedFiles = []\<rparr> of
        (s, Some e) \<Rightarrow> (s, Some e)
      | (s, None) \<Rightarrow> report c a s)"

section \<open>Notions of the specification\<close>

subsection \<open>For the encoder\<close>

text \<open>The binary exponent of a float and the spacing of the floats around it.\<close>

definition bexp :: "rat \<Rightarrow> int" where
  "bexp x = max (ilog 2 \<bar>x\<bar>) (- 1022)"

definition ulp :: "rat \<Rightarrow> rat" where
  "ulp x = 2 powi (bexp x - 52)"

text \<open>
  The contract of \<^verbatim>\<open>toDegreeMinuteSecond\<close> in the words of the specification, on floats:
  the integer part of the absolute value; the integer part of the fractional part times 60;
  the remainder of that times 60, rounded to five decimal places; and the reference.
\<close>

definition dms_spec :: "rat \<Rightarrow> string \<Rightarrow> string \<Rightarrow> int \<times> int \<times> rat \<times> string" where
  "dms_spec v negativeRef positiveRef =
     (let deg = \<lfloor>\<bar>v\<bar>\<rfloor>;
          m60 = fl (fl (\<bar>v\<bar> - of_int deg) * 60);
          mn = \<lfloor>m60\<rfloor>;
          sec = round5 (fl (fl (m60 - of_int mn) * 60))
      in (deg, mn, sec, if v < 0 then negativeRef else if 0 < v then positiveRef else []))"

text \<open>Decoding a tuple back into decimal degrees, in exact arithmetic, the sign taken
  from the reference character.\<close>

definition decode_dms :: "string \<Rightarrow> int \<times> int \<times> rat \<times> string \<Rightarrow> rat" where
  "decode_dms negativeRef t =
     (case t of (deg, mn, sec, ref) \<Rightarrow>
        (if ref = negativeRef then - 1 else 1) * (of_int deg + of_int mn / 60 + sec / 3600))"

text \<open>The two decimals with \<open>n\<close> significant digits next to \<open>x\<close> that \<open>shortest\<close>
  tries: the nearest, and the one on the other side of \<open>x\<close>.\<close>

definition cand :: "rat \<Rightarrow> int \<Rightarrow> nat \<Rightarrow> rat" where
  "cand x E n = of_int (rhe (x / 10 powi (E - int n + 1))) * 10 powi (E - int n + 1)"

definition cand2 :: "rat \<Rightarrow> int \<Rightarrow> nat \<Rightarrow> rat" where
  "cand2 x E n =
     of_int (other_int (x / 10 powi (E - int n + 1)) (rhe (x / 10 powi (E - int n + 1))))
       * 10 powi (E - int n + 1)"

subsection \<open>For the batch\<close>

text \<open>Two file systems have the same paths; and the second differs from the first at
  image files only.\<close>

definition same_dom :: "filesys \<Rightarrow> filesys \<Rightarrow> bool" where
  "same_dom f g \<longleftrightarrow> (\<forall>p. (f p = None) = (g p = None))"

definition keeps_others :: "filesys \<Rightarrow> filesys \<Rightarrow> bool" where
  "keeps_others f g \<longleftrightarrow> (\<forall>p. (\<forall>m. f p \<noteq> Some (Image m)) \<longrightarrow> g p = f p)"

text \<open>The second file system differs from the first only where an image was tagged.\<close>

definition tags_only :: "filesys \<Rightarrow> filesys \<Rightarrow> bool" where
  "tags_only f g \<longleftrightarrow> (\<forall>p. g p = f p \<or> (\<exists>m m'. f p = Some (Image m) \<and> g p = Some (Image m')))"

definition row_name :: "args \<Rightarrow> string list \<Rightarrow> string option" where
  "row_name a row = (case py_index row (img_Name_Column a) of Inl e \<Rightarrow> None | Inr name \<Rightarrow> Some name)"

definition is_missing :: "collab \<Rightarrow> args \<Rightarrow> filesys \<Rightarrow> string \<Rightarrow> bool" where
  "is_missing c a fs name \<longleftrightarrow> fs (path_join c (sourceImageFolder a) name) = None"

definition missing_names :: "collab \<Rightarrow> args \<Rightarrow> filesys \<Rightarrow> string list list \<Rightarrow> string list" where
  "missing_names c a fs rows = filter (is_missing c a fs) (List.map_filter (row_name a) rows)"

definition row_line :: "collab \<Rightarrow> args \<Rightarrow> filesys \<Rightarrow> string list \<Rightarrow> string" where
  "row_line c a fs row =
     (case row_name a row of
        None \<Rightarrow> []
      | Some name \<Rightarrow> if is_missing c a fs name then skipped_msg name
                     else path_join c (sourceImageFolder a) name)"

text \<open>A row is malformed when a column the caller asked for is not there, or a coordinate
  is not a number.\<close>

definition malformed :: "collab \<Rightarrow> args \<Rightarrow> string list \<Rightarrow> bool" where
  "malformed c a row \<longleftrightarrow>
     isl (py_index row (img_Name_Column a)) \<or> isl (float_at c row (Lat_Y_Column a))
     \<or> isl (float_at c row (Long_X_Column a)) \<or> isl (float_at c row (Alt_Z_Column a))"

definition report_text :: "string list \<Rightarrow> string" where
  "report_text names = concat (map (\<lambda>e. e @ [newline]) names)"

subsection \<open>A small run, for the examples\<close>

text \<open>
  The collaborators of the examples. piexif writes each component of a rational as an unsigned
  32-bit integer (\<^verbatim>\<open>struct.pack(">L", n)\<close>), so \<^verbatim>\<open>piexif.dump\<close> raises on a block with a
  component that is negative or not below \<open>2\<^sup>3\<^sup>2\<close>.
\<close>

definition packs32 :: "int \<times> int \<Rightarrow> bool" where
  "packs32 r \<longleftrightarrow> 0 \<le> fst r \<and> fst r < 2 ^ 32 \<and> 0 \<le> snd r \<and> snd r < 2 ^ 32"

definition piexif_packs :: "gps_ifd \<Rightarrow> bool" where
  "piexif_packs g \<longleftrightarrow>
     packs32 (GPSAltitude g)
     \<and> (case GPSLatitude g of (d, m, s) \<Rightarrow> packs32 d \<and> packs32 m \<and> packs32 s)
     \<and> (case GPSLongitude g of (d, m, s) \<Rightarrow> packs32 d \<and> packs32 m \<and> packs32 s)"

definition demo_collab :: collab where
  "demo_collab =
     \<lparr>path_join = (\<lambda>d n. d @ ''/'' @ n),
      py_float = map_of [(''1.5'', Fin (3 / 2)), (''2.25'', Fin (9 / 4)), (''10'', Fin 10),
                         (''-12.6'', Fin (fl (- 63 / 5)))],
      dump_ok = piexif_packs,
      can_write = (\<lambda>p. True)\<rparr>"

definition demo_args :: args where
  "demo_args =
     \<lparr>sourceImageFolder = ''d'', errorLogCSV = ''err.csv'', img_Name_Column = 0,
      Lat_Y_Column = 1, Long_X_Column = 2, Alt_Z_Column = 3\<rparr>"

definition demo_files :: filesys where
  "demo_files = map_of [(''d/a.jpg'', Image None), (''d/c.jpg'', Image None), (''err.csv'', Text ''old'')]"

definition demo_header :: "string list" where
  "demo_header = [''name'', ''lat'', ''lon'', ''alt'']"

definition demo_row :: "string \<Rightarrow> string list" where
  "demo_row name = [name, ''1.5'', ''2.25'', ''10'']"

definition demo_start :: state where
  "demo_start = \<lparr>files = demo_files, stdout = [], failedFiles = []\<rparr>"

section \<open>The batch loop\<close>

lemma set_gps_location_files:
  assumes "set_gps_location c fn lat lng alt fs = Inr fs'"
  shows "\<exists>g m. gps_block lat lng alt = Inr g \<and> fs fn = Some (Image m) \<and> fs' = fs(fn \<mapsto> Image (Some g))"
  using assms
  by (auto simp: set_gps_location_def bind_def piexif_insert_def
           split: sum.splits if_splits option.splits node.splits)

lemma same_dom_refl: "same_dom f f"
  by (simp add: same_dom_def)

lemma same_dom_trans: "same_dom f g \<Longrightarrow> same_dom g h \<Longrightarrow> same_dom f h"
  by (simp add: same_dom_def)

lemma keeps_others_refl: "keeps_others f f"
  by (simp add: keeps_others_def)

lemma keeps_others_trans: "keeps_others f g \<Longrightarrow> keeps_others g h \<Longrightarrow> keeps_others f h"
  by (auto simp: keeps_others_def)

lemma upd_same_dom: "fs fn = Some (Image m) \<Longrightarrow> same_dom fs (fs(fn \<mapsto> Image (Some g)))"
  by (auto simp: same_dom_def)

lemma upd_keeps_others: "fs fn = Some (Image m) \<Longrightarrow> keeps_others fs (fs(fn \<mapsto> Image (Some g)))"
  by (auto simp: keeps_others_def)

lemma do_row_cases:
  assumes "do_row c a row s = (s', r)"
  shows "(\<exists>e. row_name a row = None \<and> r = Some e \<and> s' = s)
       \<or> (\<exists>name. row_name a row = Some name \<and> is_missing c a (files s) name \<and> r = None
             \<and> s' = s\<lparr>stdout := stdout s @ [skipped_msg name], failedFiles := failedFiles s @ [name]\<rparr>)
       \<or> (\<exists>name e. row_name a row = Some name \<and> \<not> is_missing c a (files s) name \<and> r = Some e
             \<and> s' = s\<lparr>stdout := stdout s @ [path_join c (sourceImageFolder a) name]\<rparr>)
       \<or> (\<exists>name fs'. row_name a row = Some name \<and> \<not> is_missing c a (files s) name \<and> r = None
             \<and> same_dom (files s) fs' \<and> keeps_others (files s) fs'
             \<and> s' = s\<lparr>stdout := stdout s @ [path_join c (sourceImageFolder a) name], files := fs'\<rparr>)"
proof (cases "py_index row (img_Name_Column a)")
  case (Inl e)
  with assms show ?thesis by (auto simp: do_row_def row_name_def)
next
  case (Inr name)
  show ?thesis
  proof (cases "files s (path_join c (sourceImageFolder a) name) = None")
    case True
    with Inr assms show ?thesis
      by (auto simp: do_row_def row_name_def is_missing_def)
  next
    case False
    let ?img = "path_join c (sourceImageFolder a) name"
    let ?s1 = "s\<lparr>stdout := stdout s @ [?img]\<rparr>"
    let ?res = "bind (float_at c row (Lat_Y_Column a)) (\<lambda>lat.
                bind (float_at c row (Long_X_Column a)) (\<lambda>lng.
                bind (float_at c row (Alt_Z_Column a)) (\<lambda>alt.
                  set_gps_location c ?img lat lng alt (files ?s1))))"
    show ?thesis
    proof (cases ?res)
      case (Inl e)
      with Inr False assms have "s' = ?s1 \<and> r = Some e"
        by (auto simp: do_row_def Let_def)
      with Inr False show ?thesis by (auto simp: row_name_def is_missing_def)
    next
      case (Inr fs')
      with \<open>py_index row (img_Name_Column a) = Inr name\<close> False assms
      have eq: "s' = ?s1\<lparr>files := fs'\<rparr> \<and> r = None"
        by (auto simp: do_row_def Let_def)
      from Inr obtain lat lng alt where "set_gps_location c ?img lat lng alt (files s) = Inr fs'"
        by (auto simp: bind_def split: sum.splits)
      then obtain g m where "files s ?img = Some (Image m)" "fs' = (files s)(?img \<mapsto> Image (Some g))"
        using set_gps_location_files by blast
      then have "same_dom (files s) fs'" "keeps_others (files s) fs'"
        by (simp_all add: upd_same_dom upd_keeps_others)
      with eq \<open>py_index row (img_Name_Column a) = Inr name\<close> False show ?thesis
        by (auto simp: row_name_def is_missing_def)
    qed
  qed
qed

lemma same_dom_is_missing: "same_dom f g \<Longrightarrow> is_missing c a f = is_missing c a g"
  by (auto simp: same_dom_def is_missing_def fun_eq_iff)

lemma same_dom_missing_names: "same_dom f g \<Longrightarrow> missing_names c a f rows = missing_names c a g rows"
  by (simp add: missing_names_def same_dom_is_missing)

lemma same_dom_row_line: "same_dom f g \<Longrightarrow> row_line c a f row = row_line c a g row"
  using same_dom_is_missing [of f g c a] by (simp add: row_line_def split: option.splits)

lemma missing_names_Cons:
  "missing_names c a fs (row # rows) =
     (case row_name a row of None \<Rightarrow> [] | Some name \<Rightarrow> if is_missing c a fs name then [name] else [])
     @ missing_names c a fs rows"
  by (simp add: missing_names_def split: option.splits)

lemma do_row_ok:
  assumes "do_row c a row s = (s', None)"
  shows "same_dom (files s) (files s') \<and> keeps_others (files s) (files s')
       \<and> failedFiles s' = failedFiles s @ missing_names c a (files s) [row]
       \<and> stdout s' = stdout s @ [row_line c a (files s) row]"
  using do_row_cases [OF assms]
  by (auto simp: missing_names_Cons row_line_def same_dom_refl keeps_others_refl missing_names_def)

lemma do_row_err:
  assumes "do_row c a row s = (s', Some e)"
  shows "files s' = files s \<and> failedFiles s' = failedFiles s"
  using do_row_cases [OF assms] by auto

lemma rows_loop_files:
  "rows_loop c a rows s = (s', r) \<Longrightarrow> same_dom (files s) (files s') \<and> keeps_others (files s) (files s')"
proof (induction rows arbitrary: s)
  case Nil
  then show ?case by (simp add: same_dom_refl keeps_others_refl)
next
  case (Cons row rows)
  obtain s1 r1 where d: "do_row c a row s = (s1, r1)" by (cases "do_row c a row s")
  show ?case
  proof (cases r1)
    case None
    with d Cons.prems have "rows_loop c a rows s1 = (s', r)" by simp
    from Cons.IH [OF this] do_row_ok [of c a row s s1] d None show ?thesis
      by (blast intro: same_dom_trans keeps_others_trans)
  next
    case (Some e)
    with d Cons.prems have "s' = s1" by simp
    with do_row_err [of c a row s s1 e] d Some show ?thesis
      by (simp add: same_dom_refl keeps_others_refl)
  qed
qed

lemma rows_loop_ok:
  "rows_loop c a rows s = (s', None) \<Longrightarrow>
     failedFiles s' = failedFiles s @ missing_names c a (files s) rows
     \<and> stdout s' = stdout s @ map (row_line c a (files s)) rows"
proof (induction rows arbitrary: s)
  case Nil
  then show ?case by (simp add: missing_names_def)
next
  case (Cons row rows)
  obtain s1 r1 where d: "do_row c a row s = (s1, r1)" by (cases "do_row c a row s")
  with Cons.prems have r1: "r1 = None" by (cases r1) auto
  with d Cons.prems have l: "rows_loop c a rows s1 = (s', None)" by simp
  from d r1 have ok: "same_dom (files s) (files s1)"
      "failedFiles s1 = failedFiles s @ missing_names c a (files s) [row]"
      "stdout s1 = stdout s @ [row_line c a (files s) row]"
    using do_row_ok [of c a row s s1] by simp_all
  have m: "missing_names c a (files s1) rows = missing_names c a (files s) rows"
    using ok(1) by (simp add: same_dom_missing_names [symmetric])
  have rl: "map (row_line c a (files s1)) rows = map (row_line c a (files s)) rows"
    using ok(1) same_dom_row_line [of "files s" "files s1" c a] by simp
  from Cons.IH [OF l] ok m rl show ?case
    by (simp add: missing_names_Cons [of c a "files s" row rows] missing_names_Cons [of c a "files s" row "[]"]
                  missing_names_def [of c a "files s" "[]"])
qed

section \<open>Claims about the batch\<close>

text \<open>
  C10. If the input table is empty or holds only the header row, the run completes without
  raising an exception, tags no file, leaves \<^verbatim>\<open>failedFiles\<close> empty and prints nothing; the
  file system, the error report included, is the one it started from.
\<close>
theorem empty_table_is_quiet:
  "main c a [] files0 = (\<lparr>files = files0, stdout = [], failedFiles = []\<rparr>, None)
   \<and> main c a [header] files0 = (\<lparr>files = files0, stdout = [], failedFiles = []\<rparr>, None)"
  by (simp add: main_def skip_header_def report_def)

lemma main_loop:
  assumes "main c a table files0 = (s, None)"
  obtains s1 where "rows_loop c a (skip_header table) \<lparr>files = files0, stdout = [], failedFiles = []\<rparr> = (s1, None)"
    and "report c a s1 = (s, None)"
  using assms by (auto simp: main_def split: prod.splits option.splits)

lemma report_failedFiles: "report c a s = (s', r) \<Longrightarrow> failedFiles s' = failedFiles s"
  by (auto simp: report_def Let_def split: if_splits prod.splits option.splits)

lemma report_stdout: "report c a s = (s', r) \<Longrightarrow> take (length (stdout s)) (stdout s') = stdout s"
  by (auto simp: report_def Let_def split: if_splits prod.splits option.splits)

lemma do_row_missing:
  assumes "row_name a row = Some name" "is_missing c a (files s) name"
  shows "do_row c a row s =
           (s\<lparr>stdout := stdout s @ [skipped_msg name], failedFiles := failedFiles s @ [name]\<rparr>, None)"
  using assms by (auto simp: do_row_def row_name_def is_missing_def split: sum.splits)

text \<open>
  C5. A row whose image path does not exist adds its identifier to \<^verbatim>\<open>failedFiles\<close>, prints
  the diagnostic, and the loop goes on with the next row; and when the run completes,
  \<^verbatim>\<open>failedFiles\<close> holds exactly the identifiers of the rows whose file is missing, in the
  order of the table.
\<close>
theorem missing_file_recorded_and_batch_continues:
  "(row_name a row = Some name \<and> is_missing c a (files s) name \<longrightarrow>
      rows_loop c a (row # rows) s =
        rows_loop c a rows
          (s\<lparr>stdout := stdout s @ [skipped_msg name], failedFiles := failedFiles s @ [name]\<rparr>))
   \<and> (main c a table files0 = (s', None) \<longrightarrow>
        failedFiles s' = missing_names c a files0 (skip_header table))"
proof (intro conjI impI)
  assume "row_name a row = Some name \<and> is_missing c a (files s) name"
  then show "rows_loop c a (row # rows) s =
        rows_loop c a rows
          (s\<lparr>stdout := stdout s @ [skipped_msg name], failedFiles := failedFiles s @ [name]\<rparr>)"
    by (simp add: do_row_missing)
next
  assume m: "main c a table files0 = (s', None)"
  from m obtain s1 where l: "rows_loop c a (skip_header table) \<lparr>files = files0, stdout = [], failedFiles = []\<rparr> = (s1, None)"
    and r: "report c a s1 = (s', None)" by (rule main_loop)
  from rows_loop_ok [OF l] have "failedFiles s1 = missing_names c a files0 (skip_header table)" by simp
  with report_failedFiles [OF r] show "failedFiles s' = missing_names c a files0 (skip_header table)" by simp
qed

lemma demo_main_missing:
  "snd (main demo_collab demo_args [demo_header, demo_row ''a.jpg'', demo_row ''b.jpg'', demo_row ''c.jpg''] demo_files) = None"
  by code_simp

lemma demo_b_missing:
  "row_name demo_args (demo_row ''b.jpg'') = Some ''b.jpg'' \<and> is_missing demo_collab demo_args (files demo_start) ''b.jpg''"
  by code_simp

theorem missing_file_recorded_witness:
  "row_name demo_args (demo_row ''b.jpg'') = Some ''b.jpg''
   \<and> is_missing demo_collab demo_args (files demo_start) ''b.jpg''
   \<and> failedFiles (fst (rows_loop demo_collab demo_args [demo_row ''b.jpg'', demo_row ''c.jpg''] demo_start))
       = [''b.jpg'']
   \<and> snd (main demo_collab demo_args
             [demo_header, demo_row ''a.jpg'', demo_row ''b.jpg'', demo_row ''c.jpg''] demo_files) = None
   \<and> failedFiles (fst (main demo_collab demo_args
             [demo_header, demo_row ''a.jpg'', demo_row ''b.jpg'', demo_row ''c.jpg''] demo_files))
       = [''b.jpg'']"
proof -
  let ?t = "[demo_header, demo_row ''a.jpg'', demo_row ''b.jpg'', demo_row ''c.jpg'']"
  let ?m = "main demo_collab demo_args ?t demo_files"
  have h: "?m = (fst ?m, None)" using demo_main_missing by (simp add: prod_eq_iff)
  have mn: "missing_names demo_collab demo_args demo_files (skip_header ?t) = [''b.jpg'']" by code_simp
  have l: "failedFiles (fst (rows_loop demo_collab demo_args [demo_row ''c.jpg'']
             (demo_start\<lparr>stdout := stdout demo_start @ [skipped_msg ''b.jpg''],
                         failedFiles := failedFiles demo_start @ [''b.jpg'']\<rparr>))) = [''b.jpg'']" by code_simp
  from missing_file_recorded_and_batch_continues
         [of demo_args "demo_row ''b.jpg''" "''b.jpg''" demo_collab demo_start "[demo_row ''c.jpg'']"
             ?t demo_files "fst ?m"]
       demo_b_missing h mn l demo_main_missing
  show ?thesis by simp
qed

text \<open>
  C8. The run skips exactly one header row (the row itself is never read), and handles the
  remaining rows one at a time in the order of the table: when the run completes, the first
  lines printed are the lines of the data rows, one per row, in that order.
\<close>
theorem one_header_skipped_rows_in_order:
  "skip_header (header # rows) = rows
   \<and> main c a (header # rows) files0 = main c a (header' # rows) files0
   \<and> (main c a table files0 = (s, None) \<longrightarrow>
        take (length (skip_header table)) (stdout s) = map (row_line c a files0) (skip_header table))"
proof (intro conjI impI)
  show "skip_header (header # rows) = rows" by (simp add: skip_header_def)
  show "main c a (header # rows) files0 = main c a (header' # rows) files0"
    by (simp add: main_def skip_header_def)
next
  assume m: "main c a table files0 = (s, None)"
  let ?d = "skip_header table"
  from m obtain s1 where l: "rows_loop c a ?d \<lparr>files = files0, stdout = [], failedFiles = []\<rparr> = (s1, None)"
    and r: "report c a s1 = (s, None)" by (rule main_loop)
  from rows_loop_ok [OF l] have o: "stdout s1 = map (row_line c a files0) ?d" by simp
  then have "length (stdout s1) = length ?d" by simp
  with report_stdout [OF r] o show "take (length ?d) (stdout s) = map (row_line c a files0) ?d" by simp
qed

lemma demo_main_ok:
  "snd (main demo_collab demo_args [demo_header, demo_row ''c.jpg'', demo_row ''b.jpg'', demo_row ''a.jpg''] demo_files) = None"
  by code_simp

theorem one_header_skipped_witness:
  "snd (main demo_collab demo_args
          [demo_header, demo_row ''c.jpg'', demo_row ''b.jpg'', demo_row ''a.jpg''] demo_files) = None
   \<and> take 3 (stdout (fst (main demo_collab demo_args
          [demo_header, demo_row ''c.jpg'', demo_row ''b.jpg'', demo_row ''a.jpg''] demo_files)))
       = [''d/c.jpg'', skipped_msg ''b.jpg'', ''d/a.jpg'']"
proof -
  let ?t = "[demo_header, demo_row ''c.jpg'', demo_row ''b.jpg'', demo_row ''a.jpg'']"
  let ?m = "main demo_collab demo_args ?t demo_files"
  have h: "?m = (fst ?m, None)" using demo_main_ok by (simp add: prod_eq_iff)
  have sk: "skip_header ?t = [demo_row ''c.jpg'', demo_row ''b.jpg'', demo_row ''a.jpg'']"
    by (simp add: skip_header_def)
  have rl: "map (row_line demo_collab demo_args demo_files)
              [demo_row ''c.jpg'', demo_row ''b.jpg'', demo_row ''a.jpg'']
            = [''d/c.jpg'', skipped_msg ''b.jpg'', ''d/a.jpg'']" by code_simp
  from one_header_skipped_rows_in_order [of demo_header "tl ?t" demo_collab demo_args demo_files demo_header
          ?t "fst ?m"] h sk rl demo_main_ok
  show ?thesis by (simp add: numeral_3_eq_3)
qed

subsection \<open>The error report\<close>

lemma fold_report_text: "fold (\<lambda>entries buf. buf @ entries @ [newline]) xs acc = acc @ report_text xs"
  by (induction xs arbitrary: acc) (simp_all add: report_text_def)

lemma write_list_to_file_ok:
  assumes "fs p \<noteq> Some Dir" "can_write c p"
  shows "write_list_to_file c xs p fs = (fs(p \<mapsto> Text (report_text xs)), None)"
  using assms by (auto simp: write_list_to_file_def fold_report_text Let_def)

lemma main_files_others:
  assumes "main c a table files0 = (s, r)" "failedFiles s = []" "\<forall>m. files0 p \<noteq> Some (Image m)"
  shows "files s p = files0 p"
proof -
  obtain s1 r1 where l: "rows_loop c a (skip_header table) \<lparr>files = files0, stdout = [], failedFiles = []\<rparr> = (s1, r1)"
    by (cases "rows_loop c a (skip_header table) \<lparr>files = files0, stdout = [], failedFiles = []\<rparr>")
  from rows_loop_files [OF l] assms(3) have k: "files s1 p = files0 p" by (simp add: keeps_others_def)
  show ?thesis
  proof (cases r1)
    case (Some e)
    with l assms(1) have "s = s1" by (simp add: main_def)
    with k show ?thesis by simp
  next
    case None
    with l assms(1) have r: "report c a s1 = (s, r)" by (simp add: main_def)
    from report_failedFiles [OF r] assms(2) have "failedFiles s1 = []" by simp
    with r have "s = s1" by (simp add: report_def)
    with k show ?thesis by simp
  qed
qed

lemma tags_only_refl: "tags_only f f"
  by (simp add: tags_only_def)

lemma tags_only_trans: "tags_only f g \<Longrightarrow> tags_only g h \<Longrightarrow> tags_only f h"
  unfolding tags_only_def by metis

lemma do_row_tags_only:
  assumes "do_row c a row s = (s', r)"
  shows "tags_only (files s) (files s')"
proof -
  from do_row_cases [OF assms] consider "files s' = files s"
    | name fs' where "row_name a row = Some name" "\<not> is_missing c a (files s) name" "r = None"
        "s' = s\<lparr>stdout := stdout s @ [path_join c (sourceImageFolder a) name], files := fs'\<rparr>"
    by auto
  then show ?thesis
  proof cases
    case 1
    then show ?thesis by (simp add: tags_only_refl)
  next
    case 2
    let ?img = "path_join c (sourceImageFolder a) name"
    from 2(1) have n: "py_index row (img_Name_Column a) = Inr name"
      by (simp add: row_name_def split: sum.splits)
    from 2(2) have ex: "files s ?img \<noteq> None" by (simp add: is_missing_def)
    from assms n ex 2(3) obtain fs'' where
      b: "bind (float_at c row (Lat_Y_Column a)) (\<lambda>lat.
          bind (float_at c row (Long_X_Column a)) (\<lambda>lng.
          bind (float_at c row (Alt_Z_Column a)) (\<lambda>alt.
            set_gps_location c ?img lat lng alt (files s)))) = Inr fs''"
      and e: "files s' = fs''"
      by (auto simp: do_row_def Let_def split: sum.splits)
    from b obtain lat lng alt where "set_gps_location c ?img lat lng alt (files s) = Inr fs''"
      by (auto simp: bind_def split: sum.splits)
    then obtain g m where "files s ?img = Some (Image m)" "fs'' = (files s)(?img \<mapsto> Image (Some g))"
      using set_gps_location_files by blast
    with e show ?thesis by (auto simp: tags_only_def)
  qed
qed

lemma rows_loop_tags_only:
  "rows_loop c a rows s = (s', r) \<Longrightarrow> tags_only (files s) (files s')"
proof (induction rows arbitrary: s)
  case Nil
  then show ?case by (simp add: tags_only_refl)
next
  case (Cons row rows)
  obtain s1 r1 where d: "do_row c a row s = (s1, r1)" by (cases "do_row c a row s")
  show ?case
  proof (cases r1)
    case None
    with d Cons.prems have "rows_loop c a rows s1 = (s', r)" by simp
    from Cons.IH [OF this] do_row_tags_only [OF d] show ?thesis by (rule tags_only_trans [rotated])
  next
    case (Some e)
    with d Cons.prems have "s' = s1" by simp
    with do_row_tags_only [OF d] show ?thesis by simp
  qed
qed

text \<open>
  C6. After the full pass: when files were missed (and the report path is no directory and
  can be written), \<^verbatim>\<open>main\<close> replaces whatever is at the report path by a text holding each
  failed identifier, in table order, followed by a newline, and nothing else, and changes
  nothing else in the file system; when no file was missed, \<^verbatim>\<open>main\<close> ends in the state the
  loop reached, with nothing written or printed, and a report file left by an earlier run is
  still there unchanged.
\<close>

theorem report_written_only_on_failures:
  "(rows_loop c a (skip_header table) \<lparr>files = files0, stdout = [], failedFiles = []\<rparr> = (s1, None) \<longrightarrow>
      (missing_names c a files0 (skip_header table) \<noteq> [] \<and> files0 (errorLogCSV a) \<noteq> Some Dir
         \<and> can_write c (errorLogCSV a) \<longrightarrow>
         (\<exists>s. main c a table files0 = (s, None)
              \<and> failedFiles s = missing_names c a files0 (skip_header table)
              \<and> files s = (files s1)(errorLogCSV a \<mapsto>
                              Text (report_text (missing_names c a files0 (skip_header table))))))
      \<and> (missing_names c a files0 (skip_header table) = [] \<longrightarrow> main c a table files0 = (s1, None)))
   \<and> (main c a table files0 = (s', r) \<and> failedFiles s' = []
        \<and> (\<forall>m. files0 (errorLogCSV a) \<noteq> Some (Image m)) \<longrightarrow>
        files s' (errorLogCSV a) = files0 (errorLogCSV a))"
proof -
  let ?data = "skip_header table"
  let ?p = "errorLogCSV a"
  let ?miss = "missing_names c a files0 ?data"
  have A: "\<exists>s. main c a table files0 = (s, None) \<and> failedFiles s = ?miss
              \<and> files s = (files s1)(?p \<mapsto> Text (report_text ?miss))"
    if l: "rows_loop c a ?data \<lparr>files = files0, stdout = [], failedFiles = []\<rparr> = (s1, None)"
      and h: "?miss \<noteq> []" "files0 ?p \<noteq> Some Dir" "can_write c ?p"
  proof -
    from rows_loop_ok [OF l] have f: "failedFiles s1 = ?miss" by simp
    from rows_loop_tags_only [OF l] have "tags_only files0 (files s1)" by simp
    then have "files s1 ?p = files0 ?p \<or> (\<exists>m'. files s1 ?p = Some (Image m'))"
      unfolding tags_only_def by blast
    with h(2) have nd: "files s1 ?p \<noteq> Some Dir" by auto
    have m: "main c a table files0 = report c a s1" using l by (simp add: main_def)
    from f h(1) nd h(3) show ?thesis
      unfolding m by (simp add: report_def Let_def write_list_to_file_ok)
  qed
  have B: "main c a table files0 = (s1, None)"
    if l: "rows_loop c a ?data \<lparr>files = files0, stdout = [], failedFiles = []\<rparr> = (s1, None)"
      and h: "?miss = []"
  proof -
    from rows_loop_ok [OF l] h have "failedFiles s1 = []" by simp
    with l show ?thesis by (simp add: main_def report_def)
  qed
  have C: "files s' ?p = files0 ?p"
    if "main c a table files0 = (s', r)" "failedFiles s' = []" "\<forall>m. files0 ?p \<noteq> Some (Image m)"
    using that by (rule main_files_others)
  from A B C show ?thesis by blast
qed

lemma demo_loop_missing:
  "snd (rows_loop demo_collab demo_args
          (skip_header [demo_header, demo_row ''a.jpg'', demo_row ''b.jpg'', demo_row ''c.jpg''])
          \<lparr>files = demo_files, stdout = [], failedFiles = []\<rparr>) = None"
  by code_simp

lemma demo_loop_all_found:
  "snd (rows_loop demo_collab demo_args
          (skip_header [demo_header, demo_row ''a.jpg'', demo_row ''c.jpg''])
          \<lparr>files = demo_files, stdout = [], failedFiles = []\<rparr>) = None"
  by code_simp

theorem report_written_witness:
  "missing_names demo_collab demo_args demo_files
      (skip_header [demo_header, demo_row ''a.jpg'', demo_row ''b.jpg'', demo_row ''c.jpg'']) = [''b.jpg'']
   \<and> demo_files ''err.csv'' = Some (Text ''old'')
   \<and> can_write demo_collab ''err.csv''
   \<and> snd (main demo_collab demo_args
            [demo_header, demo_row ''a.jpg'', demo_row ''b.jpg'', demo_row ''c.jpg''] demo_files) = None
   \<and> files (fst (main demo_collab demo_args
            [demo_header, demo_row ''a.jpg'', demo_row ''b.jpg'', demo_row ''c.jpg''] demo_files)) ''err.csv''
        = Some (Text (''b.jpg'' @ [newline]))
   \<and> missing_names demo_collab demo_args demo_files
        (skip_header [demo_header, demo_row ''a.jpg'', demo_row ''c.jpg'']) = []
   \<and> snd (main demo_collab demo_args [demo_header, demo_row ''a.jpg'', demo_row ''c.jpg''] demo_files) = None
   \<and> stdout (fst (main demo_collab demo_args [demo_header, demo_row ''a.jpg'', demo_row ''c.jpg''] demo_files))
        = [''d/a.jpg'', ''d/c.jpg'']
   \<and> files (fst (main demo_collab demo_args [demo_header, demo_row ''a.jpg'', demo_row ''c.jpg''] demo_files))
         ''err.csv'' = Some (Text ''old'')"
proof -
  let ?t3 = "[demo_header, demo_row ''a.jpg'', demo_row ''b.jpg'', demo_row ''c.jpg'']"
  let ?t2 = "[demo_header, demo_row ''a.jpg'', demo_row ''c.jpg'']"
  let ?init = "\<lparr>files = demo_files, stdout = [], failedFiles = []\<rparr>"
  let ?l3 = "rows_loop demo_collab demo_args (skip_header ?t3) ?init"
  let ?l2 = "rows_loop demo_collab demo_args (skip_header ?t2) ?init"
  let ?m3 = "main demo_collab demo_args ?t3 demo_files"
  let ?m2 = "main demo_collab demo_args ?t2 demo_files"
  have e: "errorLogCSV demo_args = ''err.csv''" by (simp add: demo_args_def)
  have l3: "?l3 = (fst ?l3, None)" using demo_loop_missing by (simp add: prod_eq_iff)
  have l2: "?l2 = (fst ?l2, None)" using demo_loop_all_found by (simp add: prod_eq_iff)
  have m3: "missing_names demo_collab demo_args demo_files (skip_header ?t3) = [''b.jpg'']" by code_simp
  have m2: "missing_names demo_collab demo_args demo_files (skip_header ?t2) = []" by code_simp
  have o: "demo_files ''err.csv'' = Some (Text ''old'')" by (simp add: demo_files_def)
  have w: "can_write demo_collab ''err.csv''" by (simp add: demo_collab_def)
  have so: "stdout (fst ?l2) = [''d/a.jpg'', ''d/c.jpg'']" by code_simp
  from report_written_only_on_failures
         [of demo_collab demo_args ?t3 demo_files "fst ?l3" "fst ?m3" "snd ?m3"] l3 m3 o w
  obtain s where a: "?m3 = (s, None)"
      "files s = (files (fst ?l3))(''err.csv'' \<mapsto> Text (report_text [''b.jpg'']))"
    by (auto simp: e)
  from report_written_only_on_failures
         [of demo_collab demo_args ?t2 demo_files "fst ?l2" "fst ?m2" "snd ?m2"] l2 m2
  have b: "?m2 = (fst ?l2, None)" by simp
  then have f2: "failedFiles (fst ?m2) = []" using rows_loop_ok [OF l2] m2 by simp
  from report_written_only_on_failures
         [of demo_collab demo_args ?t2 demo_files "fst ?l2" "fst ?m2" "snd ?m2"] f2 o
  have c: "files (fst ?m2) ''err.csv'' = Some (Text ''old'')" by (simp add: e)
  from a have a': "snd ?m3 = None" "files (fst ?m3) ''err.csv'' = Some (Text (''b.jpg'' @ [newline]))"
    by (simp_all add: report_text_def)
  from b so have b': "snd ?m2 = None" "stdout (fst ?m2) = [''d/a.jpg'', ''d/c.jpg'']" by simp_all
  from m3 o w a' m2 b' c show ?thesis by (intro conjI)
qed

subsection \<open>Malformed rows\<close>

text \<open>
  C7, as the specification words it, fails: a row with a coordinate that is not a number, and a
  row with too few columns, are both passed over when their image file is missing, and the
  row after them is tagged.
\<close>

theorem malformed_row_counterexample:
  "malformed demo_collab demo_args [''b.jpg'', ''north'', ''2.25'', ''10'']
   \<and> malformed demo_collab demo_args [''e.jpg'']
   \<and> snd (main demo_collab demo_args
            [demo_header, [''b.jpg'', ''north'', ''2.25'', ''10''], [''e.jpg''], demo_row ''c.jpg'']
            demo_files) = None
   \<and> stdout (fst (main demo_collab demo_args
            [demo_header, [''b.jpg'', ''north'', ''2.25'', ''10''], [''e.jpg''], demo_row ''c.jpg'']
            demo_files)) ! 2 = ''d/c.jpg''
   \<and> files (fst (main demo_collab demo_args
            [demo_header, [''b.jpg'', ''north'', ''2.25'', ''10''], [''e.jpg''], demo_row ''c.jpg'']
            demo_files)) ''d/c.jpg'' \<noteq> Some (Image None)"
  by code_simp

lemma rows_loop_append:
  "rows_loop c a xs s = (s1, None) \<Longrightarrow> rows_loop c a (xs @ ys) s = rows_loop c a ys s1"
proof (induction xs arbitrary: s)
  case Nil
  then show ?case by simp
next
  case (Cons x xs)
  then show ?case by (auto split: prod.splits option.splits)
qed

lemma float_at_chain_fails:
  assumes "isl (float_at c row i1) \<or> isl (float_at c row i2) \<or> isl (float_at c row i3)"
  shows "isl (bind (float_at c row i1) (\<lambda>lat. bind (float_at c row i2) (\<lambda>lng.
               bind (float_at c row i3) (\<lambda>alt. k lat lng alt))))"
  using assms by (auto simp: bind_def split: sum.splits)

lemma do_row_malformed:
  assumes "malformed c a row"
      and "\<forall>name. row_name a row = Some name \<longrightarrow> \<not> is_missing c a (files s) name"
  shows "\<exists>e s2. do_row c a row s = (s2, Some e) \<and> files s2 = files s \<and> failedFiles s2 = failedFiles s"
proof (cases "py_index row (img_Name_Column a)")
  case (Inl e)
  then show ?thesis by (simp add: do_row_def)
next
  case (Inr name)
  with assms(2) have ex: "files s (path_join c (sourceImageFolder a) name) \<noteq> None"
    by (simp add: row_name_def is_missing_def)
  from Inr assms(1) have "isl (float_at c row (Lat_Y_Column a)) \<or> isl (float_at c row (Long_X_Column a))
       \<or> isl (float_at c row (Alt_Z_Column a))" by (simp add: malformed_def)
  from float_at_chain_fails [OF this]
  obtain e where "bind (float_at c row (Lat_Y_Column a)) (\<lambda>lat.
                   bind (float_at c row (Long_X_Column a)) (\<lambda>lng.
                   bind (float_at c row (Alt_Z_Column a)) (\<lambda>alt.
                     set_gps_location c (path_join c (sourceImageFolder a) name) lat lng alt
                       (files (s\<lparr>stdout := stdout s @ [path_join c (sourceImageFolder a) name]\<rparr>))))) = Inl e"
    by (metis isl_def)
  with Inr ex show ?thesis by (simp add: do_row_def Let_def)
qed

text \<open>
  C7, amended. The coordinates of a row are read only when its image file exists. A malformed
  row whose image file exists, or whose name column is missing, raises an exception that
  leaves \<^verbatim>\<open>main\<close>: the rows after it are not processed, no file is changed from that row on
  and no report is written. A malformed row whose image file is missing is recorded in
  \<^verbatim>\<open>failedFiles\<close> like any other missing file, and the loop goes on.
\<close>

theorem malformed_row_with_image_aborts:
  "(rows_loop c a before \<lparr>files = files0, stdout = [], failedFiles = []\<rparr> = (s1, None)
      \<and> malformed c a row
      \<and> (\<forall>name. row_name a row = Some name \<longrightarrow> \<not> is_missing c a (files s1) name) \<longrightarrow>
      (\<exists>e s2. main c a (header # before @ row # rest) files0 = (s2, Some e)
              \<and> files s2 = files s1 \<and> failedFiles s2 = failedFiles s1))
   \<and> (malformed c a row \<and> row_name a row = Some name \<and> is_missing c a (files s) name \<longrightarrow>
        rows_loop c a (row # rest) s =
          rows_loop c a rest
            (s\<lparr>stdout := stdout s @ [skipped_msg name], failedFiles := failedFiles s @ [name]\<rparr>))"
proof (intro conjI impI)
  assume h: "rows_loop c a before \<lparr>files = files0, stdout = [], failedFiles = []\<rparr> = (s1, None)
      \<and> malformed c a row
      \<and> (\<forall>name. row_name a row = Some name \<longrightarrow> \<not> is_missing c a (files s1) name)"
  then have l: "rows_loop c a before \<lparr>files = files0, stdout = [], failedFiles = []\<rparr> = (s1, None)"
    and m: "malformed c a row"
    and ex: "\<forall>name. row_name a row = Some name \<longrightarrow> \<not> is_missing c a (files s1) name"
    by simp_all
  from do_row_malformed [OF m ex] obtain e s2 where
    d: "do_row c a row s1 = (s2, Some e)" "files s2 = files s1" "failedFiles s2 = failedFiles s1" by blast
  from rows_loop_append [OF l, of "row # rest"] d(1)
  have "rows_loop c a (before @ row # rest) \<lparr>files = files0, stdout = [], failedFiles = []\<rparr> = (s2, Some e)"
    by simp
  then have "main c a (header # before @ row # rest) files0 = (s2, Some e)"
    by (simp add: main_def skip_header_def)
  with d show "\<exists>e s2. main c a (header # before @ row # rest) files0 = (s2, Some e)
              \<and> files s2 = files s1 \<and> failedFiles s2 = failedFiles s1" by blast
next
  assume "malformed c a row \<and> row_name a row = Some name \<and> is_missing c a (files s) name"
  then show "rows_loop c a (row # rest) s =
          rows_loop c a rest
            (s\<lparr>stdout := stdout s @ [skipped_msg name], failedFiles := failedFiles s @ [name]\<rparr>)"
    by (simp add: do_row_missing)
qed

theorem malformed_row_with_image_witness:
  "malformed demo_collab demo_args [''c.jpg'', ''north'', ''2.25'', ''10'']
   \<and> snd (rows_loop demo_collab demo_args [demo_row ''b.jpg''] demo_start) = None
   \<and> (\<exists>e s2. main demo_collab demo_args
                 [demo_header, demo_row ''b.jpg'', [''c.jpg'', ''north'', ''2.25'', ''10''], demo_row ''a.jpg'']
                 demo_files = (s2, Some e)
              \<and> files s2 ''d/a.jpg'' = Some (Image None) \<and> failedFiles s2 = [''b.jpg''])
   \<and> malformed demo_collab demo_args [''b.jpg'', ''north'', ''2.25'', ''10'']
   \<and> row_name demo_args [''b.jpg'', ''north'', ''2.25'', ''10''] = Some ''b.jpg''
   \<and> is_missing demo_collab demo_args (files demo_start) ''b.jpg''
   \<and> failedFiles (fst (rows_loop demo_collab demo_args
          [[''b.jpg'', ''north'', ''2.25'', ''10''], demo_row ''a.jpg''] demo_start)) = [''b.jpg'']
   \<and> snd (rows_loop demo_collab demo_args
          [[''b.jpg'', ''north'', ''2.25'', ''10''], demo_row ''a.jpg''] demo_start) = None"
proof -
  let ?bad = "[''c.jpg'', ''north'', ''2.25'', ''10'']"
  let ?gone = "[''b.jpg'', ''north'', ''2.25'', ''10'']"
  let ?l = "rows_loop demo_collab demo_args [demo_row ''b.jpg''] demo_start"
  let ?s = "demo_start\<lparr>stdout := stdout demo_start @ [skipped_msg ''b.jpg''],
                       failedFiles := failedFiles demo_start @ [''b.jpg'']\<rparr>"
  have n: "snd ?l = None" by code_simp
  then have l: "rows_loop demo_collab demo_args [demo_row ''b.jpg'']
                  \<lparr>files = demo_files, stdout = [], failedFiles = []\<rparr> = (fst ?l, None)"
    by (simp add: prod_eq_iff demo_start_def)
  have m: "malformed demo_collab demo_args ?bad" by code_simp
  have rn: "row_name demo_args ?bad = Some ''c.jpg''" by code_simp
  have ex: "\<not> is_missing demo_collab demo_args (files (fst ?l)) ''c.jpg''" by code_simp
  have h: "\<forall>name. row_name demo_args ?bad = Some name \<longrightarrow> \<not> is_missing demo_collab demo_args (files (fst ?l)) name"
    using rn ex by simp
  have f: "files (fst ?l) ''d/a.jpg'' = Some (Image None)" "failedFiles (fst ?l) = [''b.jpg'']"
    by code_simp+
  have g: "malformed demo_collab demo_args ?gone" "row_name demo_args ?gone = Some ''b.jpg''"
      "is_missing demo_collab demo_args (files demo_start) ''b.jpg''" by code_simp+
  have r: "failedFiles (fst (rows_loop demo_collab demo_args [demo_row ''a.jpg''] ?s)) = [''b.jpg'']"
      "snd (rows_loop demo_collab demo_args [demo_row ''a.jpg''] ?s) = None" by code_simp+
  from malformed_row_with_image_aborts
         [of demo_collab demo_args "[demo_row ''b.jpg'']" demo_files "fst ?l" ?bad demo_header
             "[demo_row ''a.jpg'']"] l m h
  have a: "\<exists>e s2. main demo_collab demo_args
                 (demo_header # [demo_row ''b.jpg''] @ ?bad # [demo_row ''a.jpg'']) demo_files = (s2, Some e)
              \<and> files s2 = files (fst ?l) \<and> failedFiles s2 = failedFiles (fst ?l)" by blast
  then obtain e s2 where
    a1: "main demo_collab demo_args [demo_header, demo_row ''b.jpg'', ?bad, demo_row ''a.jpg''] demo_files
           = (s2, Some e)"
    and a2: "files s2 = files (fst ?l)" "failedFiles s2 = failedFiles (fst ?l)"
    by (auto simp only: append_Cons append_Nil)
  from a1 a2 f have a3: "\<exists>e s2. main demo_collab demo_args
                 [demo_header, demo_row ''b.jpg'', ?bad, demo_row ''a.jpg''] demo_files = (s2, Some e)
              \<and> files s2 ''d/a.jpg'' = Some (Image None) \<and> failedFiles s2 = [''b.jpg'']"
    by metis
  from malformed_row_with_image_aborts
         [of demo_collab demo_args "[]" demo_files "fst ?l" ?gone demo_header "[demo_row ''a.jpg'']"
             "''b.jpg''" demo_start] g
  have b: "rows_loop demo_collab demo_args [?gone, demo_row ''a.jpg''] demo_start
             = rows_loop demo_collab demo_args [demo_row ''a.jpg''] ?s" by blast
  have c: "failedFiles (fst (rows_loop demo_collab demo_args [?gone, demo_row ''a.jpg''] demo_start))
             = [''b.jpg'']"
      "snd (rows_loop demo_collab demo_args [?gone, demo_row ''a.jpg''] demo_start) = None"
    unfolding b by (rule r)+
  from m n a3 g c show ?thesis by (intro conjI)
qed

section \<open>Claims about the GPS block\<close>

lemma change_to_rational_int: "change_to_rational (PyInt n) = Inr (n, 1)"
  by (simp add: change_to_rational_def)

lemma gps_block_altitude:
  assumes "gps_block lat lng (Fin x) = Inr g"
  shows "GPSAltitudeRef g = 1 \<and> GPSAltitude g = (rhe x, 1)"
  using assms
  by (auto simp: gps_block_def bind_def py_round_def change_to_rational_int split: sum.splits prod.splits)

text \<open>
  C4. The claim is that for every altitude, \<open>-12.6\<close> for one, \<^verbatim>\<open>set_gps_location\<close> stores
  the altitude reference 1 and the magnitude of \<^verbatim>\<open>round(altitude)\<close> over 1. The code does
  not: at the altitude \<open>-12.6\<close> the block it builds has the reference 1 and the altitude pair
  \<open>(-13, 1)\<close>, with the sign; piexif cannot pack a negative numerator, so \<^verbatim>\<open>piexif.dump\<close>
  raises, nothing is stored in the image, and the exception leaves \<^verbatim>\<open>main\<close> with the rows
  after it untouched.
\<close>

theorem negative_altitude_block_refused:
  "map_sum id GPSAltitudeRef (gps_block (Fin (3 / 2)) (Fin (9 / 4)) (Fin (fl (- 63 / 5)))) = Inr 1
   \<and> map_sum id GPSAltitude (gps_block (Fin (3 / 2)) (Fin (9 / 4)) (Fin (fl (- 63 / 5)))) = Inr (- 13, 1)
   \<and> (- 13, 1) \<noteq> (\<bar>rhe (fl (- 63 / 5))\<bar>, 1 :: int)
   \<and> map_sum id (\<lambda>fs. ())
         (set_gps_location demo_collab ''d/a.jpg'' (Fin (3 / 2)) (Fin (9 / 4)) (Fin (fl (- 63 / 5))) demo_files)
        = Inl ExifError
   \<and> snd (main demo_collab demo_args
            [demo_header, [''a.jpg'', ''1.5'', ''2.25'', ''-12.6''], demo_row ''c.jpg''] demo_files)
        = Some ExifError
   \<and> files (fst (main demo_collab demo_args
            [demo_header, [''a.jpg'', ''1.5'', ''2.25'', ''-12.6''], demo_row ''c.jpg''] demo_files))
         ''d/a.jpg'' = Some (Image None)
   \<and> files (fst (main demo_collab demo_args
            [demo_header, [''a.jpg'', ''1.5'', ''2.25'', ''-12.6''], demo_row ''c.jpg''] demo_files))
         ''d/c.jpg'' = Some (Image None)"
  by code_simp

text \<open>With an altitude that rounds to 10 the same call stores the block, altitude \<open>(10, 1)\<close>.\<close>

lemma nonnegative_altitude_stored:
  "(case set_gps_location demo_collab ''d/a.jpg'' (Fin (3 / 2)) (Fin (9 / 4)) (Fin 10) demo_files of
      Inl e \<Rightarrow> None
    | Inr fs \<Rightarrow> (case fs ''d/a.jpg'' of
                   Some (Image (Some g)) \<Rightarrow> Some (GPSAltitudeRef g, GPSAltitude g)
                 | _ \<Rightarrow> None))
   = Some (1, (10, 1))"
  by code_simp

section \<open>Facts about binary64 rounding\<close>

lemma rhe_cases:
  "rhe x = \<lfloor>x\<rfloor> \<or> rhe x = \<lfloor>x\<rfloor> + 1"
  by (simp add: rhe_def Let_def)

lemma rhe_err: "\<bar>of_int (rhe x) - x\<bar> \<le> 1 / 2"
proof -
  have "of_int \<lfloor>x\<rfloor> \<le> x" "x < of_int \<lfloor>x\<rfloor> + 1" by linarith+
  then show ?thesis by (auto simp: rhe_def Let_def)
qed

lemma rhe_of_int [simp]: "rhe (of_int n) = n"
  by (simp add: rhe_def)

lemma rhe_le: assumes "x \<le> of_int n" shows "rhe x \<le> n"
proof (cases "x = of_int n")
  case True then show ?thesis by simp
next
  case False
  with assms have "x < of_int n" by simp
  then have "\<lfloor>x\<rfloor> < n" by (simp add: floor_less_iff)
  with rhe_cases [of x] show ?thesis by auto
qed

lemma rhe_ge: assumes "of_int n \<le> x" shows "n \<le> rhe x"
proof -
  from assms have "n \<le> \<lfloor>x\<rfloor>" by (simp add: le_floor_iff)
  with rhe_cases [of x] show ?thesis by auto
qed

lemma rhe_mono: assumes "x \<le> y" shows "rhe x \<le> rhe y"
proof (cases "\<lfloor>x\<rfloor> = \<lfloor>y\<rfloor>")
  case True
  with assms show ?thesis by (auto simp: rhe_def Let_def)
next
  case False
  with assms have "\<lfloor>x\<rfloor> < \<lfloor>y\<rfloor>" using floor_mono [of x y] by simp
  with rhe_cases [of x] rhe_cases [of y] show ?thesis by auto
qed

lemma ndigits_pos: "1 < b \<Longrightarrow> 0 < n \<Longrightarrow> 0 < ndigits b n"
  by (subst ndigits.simps) simp

lemma ndigits_bounds:
  "1 < b \<Longrightarrow> 0 < n \<Longrightarrow> b ^ (ndigits b n - 1) \<le> n \<and> n < b ^ ndigits b n"
proof (induction b n rule: ndigits.induct)
  case (1 b n)
  show ?case
  proof (cases "n < b")
    case True
    with "1.prems" have "n div b = 0" by simp
    then have "ndigits b (n div b) = 0" by (subst ndigits.simps) simp
    with "1.prems" have "ndigits b n = 1" by (subst ndigits.simps) simp
    with True "1.prems" show ?thesis by simp
  next
    case False
    with "1.prems" have q: "0 < n div b" by (simp add: pos_imp_zdiv_pos_iff)
    from "1.prems" have s: "ndigits b n = Suc (ndigits b (n div b))" by (subst ndigits.simps) simp
    from "1.IH" "1.prems" q have ih: "b ^ (ndigits b (n div b) - 1) \<le> n div b" "n div b < b ^ ndigits b (n div b)"
      by simp_all
    from ndigits_pos [OF "1.prems"(1) q] have p: "0 < ndigits b (n div b)" .
    have "b ^ (ndigits b n - 1) = b * b ^ (ndigits b (n div b) - 1)"
      using s p by (cases "ndigits b (n div b)") simp_all
    also have "\<dots> \<le> b * (n div b)" using ih(1) "1.prems" by simp
    also have "\<dots> \<le> n"
    proof -
      have "n = b * (n div b) + n mod b" by simp
      moreover have "0 \<le> n mod b" using "1.prems" by simp
      ultimately show ?thesis by linarith
    qed
    finally have lo: "b ^ (ndigits b n - 1) \<le> n" .
    have "n div b + 1 \<le> b ^ ndigits b (n div b)" using ih(2) by simp
    then have "b * (n div b + 1) \<le> b * b ^ ndigits b (n div b)" using "1.prems" by simp
    moreover have "n < b * (n div b + 1)"
    proof -
      have "n = b * (n div b) + n mod b" by simp
      moreover have "n mod b < b" using "1.prems" by simp
      ultimately have "n < b * (n div b) + b" by linarith
      then show ?thesis by (simp add: algebra_simps)
    qed
    ultimately have "n < b ^ ndigits b n" using s by simp
    with lo show ?thesis by simp
  qed
qed

lemma powi_less_cancel:
  fixes B :: rat
  assumes "1 < B" "B powi m < B powi n"
  shows "m < n"
proof (rule ccontr)
  assume "\<not> m < n"
  then have "n \<le> m" by simp
  from power_int_increasing [OF this, of B] assms(1) have "B powi n \<le> B powi m" by simp
  with assms(2) show False by simp
qed

lemma ilog_bounds:
  assumes "1 < b" "0 < x"
  shows "of_int b powi ilog b x \<le> x \<and> x < of_int b powi (ilog b x + 1)"
proof -
  obtain p q where pq: "quotient_of x = (p, q)" by (cases "quotient_of x")
  let ?B = "of_int b :: rat"
  have B: "1 < ?B" using assms(1) by simp
  have q: "0 < q" using pq by (rule quotient_of_denom_pos)
  have x: "x = of_int p / of_int q" using pq by (rule quotient_of_div)
  have p: "0 < p" using assms(2) q x by (simp add: zero_less_divide_iff)
  let ?dp = "ndigits b p" and ?dq = "ndigits b q"
  let ?e = "int ?dp - int ?dq"
  have dp: "0 < ?dp" and dq: "0 < ?dq" using assms(1) p q by (simp_all add: ndigits_pos)
  from ndigits_bounds [OF assms(1) p] have "of_int (b ^ (?dp - 1)) \<le> (of_int p :: rat)"
      "(of_int p :: rat) < of_int (b ^ ?dp)" by (simp_all only: of_int_le_iff of_int_less_iff)
  then have pb: "?B ^ (?dp - 1) \<le> of_int p" "of_int p < ?B ^ ?dp" by simp_all
  from ndigits_bounds [OF assms(1) q] have "of_int (b ^ (?dq - 1)) \<le> (of_int q :: rat)"
      "(of_int q :: rat) < of_int (b ^ ?dq)" by (simp_all only: of_int_le_iff of_int_less_iff)
  then have qb: "?B ^ (?dq - 1) \<le> of_int q" "of_int q < ?B ^ ?dq" by simp_all
  have Bp: "0 < ?B ^ n" for n using B by simp
  have lo: "?B powi (?e - 1) < x"
  proof -
    have "?e - 1 = int (?dp - 1) - int ?dq" using dp by (simp add: of_nat_diff)
    then have "?B powi (?e - 1) = ?B powi (int (?dp - 1) - int ?dq)" by (rule arg_cong)
    also have "\<dots> = ?B ^ (?dp - 1) / ?B ^ ?dq" using B by (subst power_int_diff) simp_all
    also have "\<dots> \<le> of_int p / ?B ^ ?dq"
      by (rule divide_right_mono [OF pb(1) less_imp_le [OF Bp]])
    also have "\<dots> < of_int p / of_int q"
    proof (rule divide_strict_left_mono [OF qb(2)])
      show "0 < (of_int p :: rat)" using p by simp
      show "0 < ?B ^ ?dq * of_int q" using Bp [of ?dq] q by simp
    qed
    finally show ?thesis using x by simp
  qed
  have hi: "x < ?B powi (?e + 1)"
  proof -
    have "x = of_int p / of_int q" by (rule x)
    also have "\<dots> < ?B ^ ?dp / of_int q"
    proof (rule divide_strict_right_mono [OF pb(2)])
      show "0 < (of_int q :: rat)" using q by simp
    qed
    also have "\<dots> \<le> ?B ^ ?dp / ?B ^ (?dq - 1)"
    proof (rule divide_left_mono [OF qb(1)])
      show "0 \<le> ?B ^ ?dp" using Bp [of ?dp] by simp
      show "0 < of_int q * ?B ^ (?dq - 1)" using Bp [of "?dq - 1"] q by simp
    qed
    also have "\<dots> = ?B powi (int ?dp - int (?dq - 1))" using B by (subst power_int_diff) simp_all
    also have "\<dots> = ?B powi (?e + 1)"
    proof -
      have "int ?dp - int (?dq - 1) = ?e + 1" using dq by (simp add: of_nat_diff)
      then show ?thesis by (rule arg_cong)
    qed
    finally show ?thesis .
  qed
  have il: "ilog b x = (if ?B powi ?e \<le> x then ?e else ?e - 1)"
    by (simp add: ilog_def pq Let_def)
  show ?thesis
  proof (cases "?B powi ?e \<le> x")
    case True
    with il hi show ?thesis by simp
  next
    case False
    with il lo show ?thesis by simp
  qed
qed

lemma ilog_le:
  assumes "1 < b" "0 < x" "x < of_int b powi (k + 1)"
  shows "ilog b x \<le> k"
proof -
  from ilog_bounds [OF assms(1,2)] assms(3) have "of_int b powi ilog b x < (of_int b :: rat) powi (k + 1)"
    by simp
  from powi_less_cancel [OF _ this] assms(1) show ?thesis by simp
qed

lemma ilog_ge:
  assumes "1 < b" "0 < x" "of_int b powi k \<le> x"
  shows "k \<le> ilog b x"
proof -
  from ilog_bounds [OF assms(1,2)] assms(3) have "of_int b powi k < (of_int b :: rat) powi (ilog b x + 1)"
    by simp
  from powi_less_cancel [OF _ this] assms(1) show ?thesis by simp
qed

lemma ilog_mono:
  assumes "1 < b" "0 < x" "x \<le> y"
  shows "ilog b x \<le> ilog b y"
proof -
  from assms have y: "0 < y" by simp
  from ilog_bounds [OF assms(1,2)] assms(3) have "of_int b powi ilog b x \<le> y" by simp
  from ilog_ge [OF assms(1) y this] show ?thesis .
qed

lemma fl_ulp: "fl x = (if x = 0 then 0 else of_int (rhe (x / ulp x)) * ulp x)"
  by (simp add: fl_def ulp_def bexp_def Let_def)

lemma ulp_pos: "0 < ulp x"
  by (simp add: ulp_def zero_less_power_int)

lemma two_powi_split: "(2::rat) powi (m + n) = 2 powi m * 2 powi n"
  by (rule power_int_add) simp

lemma ulp_times: "2 ^ 53 * ulp x = 2 powi (bexp x + 1)" "2 ^ 52 * ulp x = 2 powi bexp x"
proof -
  have "(2::rat) powi (53 + (bexp x - 52)) = 2 powi 53 * 2 powi (bexp x - 52)" by (rule two_powi_split)
  moreover have "53 + (bexp x - 52) = bexp x + 1" by simp
  ultimately show "2 ^ 53 * ulp x = 2 powi (bexp x + 1)" by (simp add: ulp_def)
  have "(2::rat) powi (52 + (bexp x - 52)) = 2 powi 52 * 2 powi (bexp x - 52)" by (rule two_powi_split)
  then show "2 ^ 52 * ulp x = 2 powi bexp x" by (simp add: ulp_def)
qed

lemma bexp_bounds:
  assumes "0 < x"
  shows "x < 2 powi (bexp x + 1)" "- 1022 \<le> bexp x" "- 1022 < bexp x \<Longrightarrow> 2 powi bexp x \<le> x"
proof -
  from ilog_bounds [of 2 x] assms have b: "2 powi ilog 2 x \<le> x" "x < 2 powi (ilog 2 x + 1)" by simp_all
  have "ilog 2 x + 1 \<le> bexp x + 1" using assms by (simp add: bexp_def)
  then have "(2::rat) powi (ilog 2 x + 1) \<le> 2 powi (bexp x + 1)" by (intro power_int_increasing) simp_all
  with b(2) show "x < 2 powi (bexp x + 1)" by simp
  show "- 1022 \<le> bexp x" by (simp add: bexp_def)
  show "2 powi bexp x \<le> x" if "- 1022 < bexp x"
  proof -
    from that assms have "bexp x = ilog 2 x" by (simp add: bexp_def max_def split: if_splits)
    with b(1) show ?thesis by simp
  qed
qed

lemma bexp_mono: assumes "0 < x" "x \<le> y" shows "bexp x \<le> bexp y"
  using ilog_mono [of 2 x y] assms by (simp add: bexp_def max_def)

lemma fl_nonneg: assumes "0 \<le> x" shows "0 \<le> fl x"
proof (cases "x = 0")
  case True then show ?thesis by (simp add: fl_ulp)
next
  case False
  with assms have "0 \<le> x / ulp x" using ulp_pos [of x] by simp
  then have "0 \<le> rhe (x / ulp x)" using rhe_ge [of 0 "x / ulp x"] by simp
  with False ulp_pos [of x] show ?thesis by (simp add: fl_ulp)
qed

lemma fl_upper: assumes "0 < x" shows "fl x \<le> 2 powi (bexp x + 1)"
proof -
  from bexp_bounds(1) [OF assms] have "x < 2 ^ 53 * ulp x" by (simp only: ulp_times)
  then have "x / ulp x \<le> of_int (2 ^ 53)" using ulp_pos [of x] by (simp add: pos_divide_le_eq)
  then have "rhe (x / ulp x) \<le> 2 ^ 53" by (rule rhe_le)
  then have "(of_int (rhe (x / ulp x)) :: rat) \<le> of_int (2 ^ 53)" by (simp only: of_int_le_iff)
  then have "of_int (rhe (x / ulp x)) * ulp x \<le> 2 ^ 53 * ulp x"
    using ulp_pos [of x] by (simp add: mult_right_mono)
  with assms show ?thesis by (simp only: fl_ulp ulp_times) simp
qed

lemma fl_lower: assumes "0 < x" "- 1022 < bexp x" shows "2 powi bexp x \<le> fl x"
proof -
  from bexp_bounds(3) [OF assms] have "2 ^ 52 * ulp x \<le> x" by (simp only: ulp_times)
  then have "of_int (2 ^ 52) \<le> x / ulp x" using ulp_pos [of x] by (simp add: pos_le_divide_eq)
  then have "2 ^ 52 \<le> rhe (x / ulp x)" by (rule rhe_ge)
  then have "(of_int (2 ^ 52) :: rat) \<le> of_int (rhe (x / ulp x))" by (simp only: of_int_le_iff)
  then have "2 ^ 52 * ulp x \<le> of_int (rhe (x / ulp x)) * ulp x"
    using ulp_pos [of x] by (simp add: mult_right_mono)
  with assms show ?thesis by (simp only: fl_ulp ulp_times) simp
qed

lemma fl_mono: assumes "0 \<le> x" "x \<le> y" shows "fl x \<le> fl y"
proof (cases "x = 0")
  case True
  with assms fl_nonneg [of y] show ?thesis by (simp add: fl_ulp)
next
  case False
  with assms have x: "0 < x" and y: "0 < y" by simp_all
  show ?thesis
  proof (cases "bexp x = bexp y")
    case True
    then have u: "ulp x = ulp y" by (simp add: ulp_def)
    from assms(2) have "x / ulp y \<le> y / ulp y" using ulp_pos [of y] by (simp add: divide_right_mono)
    then have "rhe (x / ulp y) \<le> rhe (y / ulp y)" by (rule rhe_mono)
    then have "(of_int (rhe (x / ulp y)) :: rat) \<le> of_int (rhe (y / ulp y))" by (simp only: of_int_le_iff)
    then have "of_int (rhe (x / ulp y)) * ulp y \<le> of_int (rhe (y / ulp y)) * ulp y"
      using ulp_pos [of y] by (simp add: mult_right_mono)
    with x y u show ?thesis by (simp add: fl_ulp)
  next
    case False
    with bexp_mono [OF x assms(2)] have lt: "bexp x < bexp y" by simp
    with bexp_bounds(2) [OF x] have "- 1022 < bexp y" by simp
    from fl_lower [OF y this] have l: "2 powi bexp y \<le> fl y" .
    from lt have "bexp x + 1 \<le> bexp y" by simp
    then have "(2::rat) powi (bexp x + 1) \<le> 2 powi bexp y" by (intro power_int_increasing) simp_all
    with fl_upper [OF x] l show ?thesis by simp
  qed
qed

lemma fl_err:
  assumes "0 \<le> x" "x < 2 powi (k + 1)" "- 1022 \<le> k"
  shows "\<bar>fl x - x\<bar> \<le> 2 powi (k - 53)"
proof (cases "x = 0")
  case True
  then show ?thesis by (simp add: fl_ulp zero_le_power_int)
next
  case False
  with assms have x: "0 < x" by simp
  have "ilog 2 x \<le> k" using ilog_le [of 2 x k] x assms(2) by simp
  with assms(3) x have "bexp x \<le> k" by (simp add: bexp_def)
  then have "bexp x - 52 \<le> k - 52" by simp
  then have u: "ulp x \<le> 2 powi (k - 52)" unfolding ulp_def by (intro power_int_increasing) simp_all
  have h: "(2::rat) powi (k - 52) = 2 * 2 powi (k - 53)"
  proof -
    have "(2::rat) powi (1 + (k - 53)) = 2 powi 1 * 2 powi (k - 53)" by (rule two_powi_split)
    moreover have "1 + (k - 53) = k - 52" by simp
    ultimately show ?thesis by simp
  qed
  have "fl x - x = (of_int (rhe (x / ulp x)) - x / ulp x) * ulp x"
    using False ulp_pos [of x] by (simp add: fl_ulp algebra_simps)
  then have "\<bar>fl x - x\<bar> = \<bar>of_int (rhe (x / ulp x)) - x / ulp x\<bar> * ulp x"
    using ulp_pos [of x] by (simp add: abs_mult)
  also have "\<dots> \<le> 1 / 2 * ulp x" using rhe_err [of "x / ulp x"] ulp_pos [of x]
    by (intro mult_right_mono) simp_all
  also have "\<dots> \<le> 2 powi (k - 53)" using u h by simp
  finally show ?thesis .
qed

section \<open>Claims about the coordinate encoder\<close>

lemma rhe_neg: "rhe (- x) = - rhe x"
proof (cases "x = of_int \<lfloor>x\<rfloor>")
  case True
  then obtain n where "x = of_int n" ..
  then show ?thesis using rhe_of_int [of "- n"] by simp
next
  case False
  have b: "of_int \<lfloor>x\<rfloor> \<le> x" "x < of_int \<lfloor>x\<rfloor> + 1" by linarith+
  have lt: "of_int \<lfloor>x\<rfloor> < x" by (rule le_neq_trans [OF b(1) not_sym [OF False]])
  have fn: "\<lfloor>- x\<rfloor> = - \<lfloor>x\<rfloor> - 1"
    by (rule floor_unique) (use lt b in simp_all)
  show ?thesis
    using lt b by (auto simp: rhe_def Let_def fn)
qed

lemma bexp_neg: "bexp (- x) = bexp x"
  by (simp add: bexp_def)

lemma fl_neg: "fl (- x) = - fl x"
  by (simp add: fl_ulp ulp_def bexp_neg rhe_neg)

lemma fl_abs: "fl x = x \<Longrightarrow> fl \<bar>x\<bar> = \<bar>x\<bar>"
  by (cases "0 \<le> x") (simp_all add: abs_if fl_neg)

lemma fl_consts:
  "fl 1 = 1" "fl 60 = 60" "fl (1 - 1 / 2 ^ 53) = 1 - 1 / 2 ^ 53"
  "fl ((1 - 1 / 2 ^ 53) * 60) = 60 - 1 / 2 ^ 47"
  by code_simp+

lemma frac_binary64:
  assumes "fl a = a" "0 \<le> a"
  shows "a - of_int \<lfloor>a\<rfloor> \<le> 1 - 1 / 2 ^ 53"
proof (cases "a = 0")
  case True
  then show ?thesis by simp
next
  case False
  with assms have a: "0 < a" by simp
  define n where "n = rhe (a / ulp a)"
  have an: "a = of_int n * ulp a" using assms(1) False by (simp add: fl_ulp n_def)
  consider "bexp a \<le> - 2" | "52 \<le> bexp a" | "- 1 \<le> bexp a" "bexp a < 52" by linarith
  then show ?thesis
  proof cases
    case 1
    then have "bexp a + 1 \<le> - 1" by simp
    then have "(2::rat) powi (bexp a + 1) \<le> 2 powi (- 1)" by (intro power_int_increasing) simp_all
    with bexp_bounds(1) [OF a] have h: "a < 1 / 2" by (simp add: power_int_minus_divide)
    with a have "\<lfloor>a\<rfloor> = 0" by (intro floor_unique) simp_all
    with h show ?thesis by simp
  next
    case 2
    then have "ulp a = of_int (2 ^ nat (bexp a - 52))" by (simp add: ulp_def power_int_nonneg_exp)
    with an have "a = of_int (n * 2 ^ nat (bexp a - 52))" by simp
    then obtain m :: int where "a = of_int m" ..
    then show ?thesis by simp
  next
    case 3
    define K :: int where "K = 2 ^ nat (52 - bexp a)"
    have Kpos: "0 < K" by (simp add: K_def)
    have "nat (52 - bexp a) \<le> 53" using 3 by simp
    then have "(2::int) ^ nat (52 - bexp a) \<le> 2 ^ 53" by (intro power_increasing) simp_all
    then have K53: "K \<le> 2 ^ 53" by (simp add: K_def)
    have "ulp a = 2 powi (- (52 - bexp a))" by (simp add: ulp_def)
    also have "\<dots> = 1 / 2 powi (52 - bexp a)" by (rule power_int_minus_divide)
    also have "\<dots> = 1 / of_int K" using 3 by (simp add: K_def power_int_nonneg_exp)
    finally have u: "ulp a = 1 / of_int K" .
    with an have aK: "a = of_int n / of_int K" by simp
    then have fl: "\<lfloor>a\<rfloor> = n div K" by (simp add: floor_divide_of_int_eq)
    have "(of_int n :: rat) = of_int K * of_int (n div K) + of_int (n mod K)"
      by (simp flip: of_int_mult of_int_add)
    then have "a = (of_int K * of_int (n div K) + of_int (n mod K)) / of_int K"
      using aK by simp
    then have "a = of_int (n div K) + of_int (n mod K) / of_int K"
      using Kpos by (simp add: add_divide_distrib)
    with fl have fr: "a - of_int \<lfloor>a\<rfloor> = of_int (n mod K) / of_int K" by simp
    have "n mod K \<le> K - 1" using Kpos pos_mod_bound [of K n] by simp
    then have "(of_int (n mod K) :: rat) \<le> of_int (K - 1)" by (simp only: of_int_le_iff)
    then have "of_int (n mod K) / (of_int K :: rat) \<le> of_int (K - 1) / of_int K"
      using Kpos by (simp add: divide_right_mono)
    also have "\<dots> = 1 - 1 / of_int K" using Kpos by (simp add: field_simps)
    also have "\<dots> \<le> 1 - 1 / 2 ^ 53"
    proof -
      have "(of_int K :: rat) \<le> of_int (2 ^ 53)" using K53 by (simp only: of_int_le_iff)
      then have "1 / (2 ^ 53 :: rat) \<le> 1 / of_int K" using Kpos by (simp add: frac_le)
      then show ?thesis by simp
    qed
    finally show ?thesis using fr by simp
  qed
qed

lemma fl_unit:
  assumes "0 \<le> x" "x < 1"
  shows "0 \<le> fl x" "fl x \<le> 1" "\<bar>fl x - x\<bar> \<le> 1 / 2 ^ 54"
proof -
  show "0 \<le> fl x" using assms(1) by (rule fl_nonneg)
  from fl_mono [of x 1] assms show "fl x \<le> 1" by (simp add: fl_consts)
  from fl_err [of x "- 1"] assms show "\<bar>fl x - x\<bar> \<le> 1 / 2 ^ 54"
    by (simp add: power_int_minus_divide)
qed

lemma fl_sixty:
  assumes "0 \<le> x" "x \<le> 60"
  shows "0 \<le> fl x" "fl x \<le> 60" "\<bar>fl x - x\<bar> \<le> 1 / 2 ^ 48"
proof -
  show "0 \<le> fl x" using assms(1) by (rule fl_nonneg)
  from fl_mono [of x 60] assms show "fl x \<le> 60" by (simp add: fl_consts)
  from fl_err [of x 5] assms show "\<bar>fl x - x\<bar> \<le> 1 / 2 ^ 48"
    by (simp add: power_int_minus_divide)
qed

lemma round5_sixty:
  assumes "0 \<le> w" "w \<le> 60"
  shows "0 \<le> round5 w" "round5 w \<le> 60" "\<bar>round5 w - w\<bar> \<le> 1 / 200000 + 1 / 2 ^ 48"
proof -
  define r :: rat where "r = of_int (rhe (w * 100000)) / 100000"
  have "of_int 0 \<le> w * 100000" using assms(1) by simp
  then have "0 \<le> rhe (w * 100000)" by (rule rhe_ge)
  then have r0: "0 \<le> r" by (simp add: r_def)
  have "w * 100000 \<le> of_int 6000000" using assms(2) by simp
  then have "rhe (w * 100000) \<le> 6000000" by (rule rhe_le)
  then have "(of_int (rhe (w * 100000)) :: rat) \<le> of_int 6000000" by (simp only: of_int_le_iff)
  then have r60: "r \<le> 60" by (simp add: r_def)
  have "\<bar>of_int (rhe (w * 100000)) - w * 100000\<bar> \<le> 1 / 2" by (rule rhe_err)
  then have rw: "\<bar>r - w\<bar> \<le> 1 / 200000" by (simp add: r_def field_simps abs_if split: if_splits)
  have s: "round5 w = fl r" by (simp add: round5_def r_def)
  from fl_sixty [OF r0 r60] s show "0 \<le> round5 w" "round5 w \<le> 60" by simp_all
  from fl_sixty(3) [OF r0 r60] rw show "\<bar>round5 w - w\<bar> \<le> 1 / 200000 + 1 / 2 ^ 48"
    unfolding s by linarith
qed

lemma frac_unit: "0 \<le> x - of_int \<lfloor>x\<rfloor>" "x - of_int \<lfloor>x\<rfloor> < (1::rat)"
  by linarith+

lemma trunc_nonneg: "0 \<le> x \<Longrightarrow> trunc x = \<lfloor>x\<rfloor>"
  by (simp add: trunc_def)

lemma trunc_minutes: "trunc (fl (fl (x - of_int \<lfloor>x\<rfloor>) * 60)) = \<lfloor>fl (fl (x - of_int \<lfloor>x\<rfloor>) * 60)\<rfloor>"
proof -
  have "0 \<le> fl (x - of_int \<lfloor>x\<rfloor>)" using frac_unit(1) [of x] by (rule fl_nonneg)
  then have "0 \<le> fl (fl (x - of_int \<lfloor>x\<rfloor>) * 60)" by (intro fl_nonneg) simp
  then show ?thesis by (rule trunc_nonneg)
qed

lemma to_deg_finite: "to_deg (Fin v) [neg, pos] = Inr (dms_spec v neg pos)"
proof -
  have i: "py_index [neg, pos] 0 = Inr neg" "py_index [neg, pos] 1 = Inr pos"
    by (simp_all add: py_index_def)
  have a: "trunc \<bar>v\<bar> = \<lfloor>\<bar>v\<bar>\<rfloor>" by (simp add: trunc_nonneg)
  have "to_deg (Fin v) [neg, pos] =
          Inr (let deg = trunc \<bar>v\<bar>; t1 = fl (fl (\<bar>v\<bar> - of_int deg) * 60); mn = trunc t1;
                   sec = round5 (fl (fl (t1 - of_int mn) * 60))
               in (deg, mn, sec, if v < 0 then neg else if 0 < v then pos else []))"
    by (simp add: to_deg_def lt0_def gt0_def i py_int_def pyabs_def Let_def del: abs_of_pos abs_of_neg abs_of_nonneg abs_of_nonpos)
  also have "\<dots> = Inr (dms_spec v neg pos)"
    unfolding dms_spec_def Let_def a trunc_minutes ..
  finally show ?thesis .
qed

lemma dms_spec_ranges:
  assumes "fl v = v"
  shows "case dms_spec v neg pos of (deg, mn, sec, ref) \<Rightarrow>
           0 \<le> deg \<and> 0 \<le> mn \<and> mn \<le> 59 \<and> 0 \<le> sec \<and> sec \<le> 60"
proof -
  define a where "a = \<bar>v\<bar>"
  define y where "y = fl (a - of_int \<lfloor>a\<rfloor>)"
  define t1 where "t1 = fl (y * 60)"
  define z where "z = fl (t1 - of_int \<lfloor>t1\<rfloor>)"
  define w where "w = fl (z * 60)"
  have a0: "0 \<le> a" and fa: "fl a = a" using assms by (simp_all add: a_def fl_abs)
  have y0: "0 \<le> y" unfolding y_def using frac_unit(1) by (rule fl_nonneg)
  have "y \<le> fl (1 - 1 / 2 ^ 53)" unfolding y_def
    using frac_unit(1) frac_binary64 [OF fa a0] by (rule fl_mono)
  then have y1: "y \<le> 1 - 1 / 2 ^ 53" by (simp only: fl_consts)
  have t0: "0 \<le> t1" unfolding t1_def using y0 by (intro fl_nonneg) simp
  have "t1 \<le> fl ((1 - 1 / 2 ^ 53) * 60)" unfolding t1_def using y0 y1 by (intro fl_mono) simp_all
  then have t60: "t1 < 60" by (simp only: fl_consts) simp
  have m0: "0 \<le> \<lfloor>t1\<rfloor>" using t0 by simp
  have m59: "\<lfloor>t1\<rfloor> \<le> 59" using t60 by (simp add: floor_le_iff)
  from fl_unit [OF frac_unit [of t1]] have z0: "0 \<le> z" and z1: "z \<le> 1" by (simp_all add: z_def)
  then have "0 \<le> z * 60" "z * 60 \<le> 60" by simp_all
  from fl_sixty(1,2) [OF this] have w0: "0 \<le> w" and w60: "w \<le> 60" by (simp_all add: w_def)
  from round5_sixty(1,2) [OF w0 w60] have s: "0 \<le> round5 w" "round5 w \<le> 60" .
  have d0: "0 \<le> \<lfloor>a\<rfloor>" using a0 by simp
  from d0 m0 m59 s show ?thesis
    by (simp add: dms_spec_def Let_def a_def y_def t1_def z_def w_def)
qed

lemma dms_spec_error:
  "case dms_spec v neg pos of (deg, mn, sec, ref) \<Rightarrow>
     0 \<le> of_int deg + of_int mn / 60 + sec / 3600
     \<and> \<bar>of_int deg + of_int mn / 60 + sec / 3600 - \<bar>v\<bar>\<bar> \<le> 1 / 100000"
proof -
  define a where "a = \<bar>v\<bar>"
  define f where "f = a - of_int \<lfloor>a\<rfloor>"
  define y where "y = fl f"
  define t1 where "t1 = fl (y * 60)"
  define g where "g = t1 - of_int \<lfloor>t1\<rfloor>"
  define z where "z = fl g"
  define w where "w = fl (z * 60)"
  define sec where "sec = round5 w"
  have a0: "0 \<le> a" by (simp add: a_def)
  have f01: "0 \<le> f" "f < 1" unfolding f_def by (rule frac_unit)+
  from fl_unit [OF f01] have y: "0 \<le> y" "y \<le> 1" "\<bar>y - f\<bar> \<le> 1 / 2 ^ 54" by (simp_all add: y_def)
  then have "0 \<le> y * 60" "y * 60 \<le> 60" by simp_all
  from fl_sixty [OF this] have t: "0 \<le> t1" "t1 \<le> 60" "\<bar>t1 - y * 60\<bar> \<le> 1 / 2 ^ 48"
    by (simp_all add: t1_def)
  have g01: "0 \<le> g" "g < 1" unfolding g_def by (rule frac_unit)+
  from fl_unit [OF g01] have z: "0 \<le> z" "z \<le> 1" "\<bar>z - g\<bar> \<le> 1 / 2 ^ 54" by (simp_all add: z_def)
  then have "0 \<le> z * 60" "z * 60 \<le> 60" by simp_all
  from fl_sixty [OF this] have w: "0 \<le> w" "w \<le> 60" "\<bar>w - z * 60\<bar> \<le> 1 / 2 ^ 48"
    by (simp_all add: w_def)
  from round5_sixty [OF w(1,2)] have s: "0 \<le> sec" "\<bar>sec - w\<bar> \<le> 1 / 200000 + 1 / 2 ^ 48"
    by (simp_all add: sec_def)
  have d0: "0 \<le> (of_int \<lfloor>a\<rfloor> :: rat)" using a0 by simp
  have m0: "0 \<le> (of_int \<lfloor>t1\<rfloor> :: rat)" using t(1) by simp
  have ea: "a = of_int \<lfloor>a\<rfloor> + f" by (simp add: f_def)
  have et: "t1 = of_int \<lfloor>t1\<rfloor> + g" by (simp add: g_def)
  have n: "(1::rat) / 2 ^ 54 = 1 / 18014398509481984" "(1::rat) / 2 ^ 48 = 1 / 281474976710656" by simp_all
  have pos: "0 \<le> of_int \<lfloor>a\<rfloor> + of_int \<lfloor>t1\<rfloor> / 60 + sec / 3600"
    using d0 m0 s(1) by simp
  have err: "\<bar>of_int \<lfloor>a\<rfloor> + of_int \<lfloor>t1\<rfloor> / 60 + sec / 3600 - a\<bar> \<le> 1 / 100000"
    using y(3) t(3) z(3) w(3) s(2) ea et unfolding n by linarith
  from pos err show ?thesis
    by (simp add: dms_spec_def Let_def a_def f_def y_def t1_def g_def z_def w_def sec_def)
qed

text \<open>
  C9. For every float \<open>v\<close> with \<open>|v| \<le> 180\<close>, \<^verbatim>\<open>to_deg\<close> returns a tuple with
  \<open>deg \<ge> 0\<close>, \<open>0 \<le> min \<le> 59\<close> and \<open>0 \<le> sec \<le> 60\<close>; and \<open>sec < 60\<close> does not
  hold in general: the largest float below 1 gives \<open>min = 59\<close> and \<open>sec = 60.0\<close>.
\<close>

theorem dms_ranges_and_sec_60:
  "(binary64 v \<and> \<bar>v\<bar> \<le> 180 \<longrightarrow>
      (\<exists>deg mn sec ref. to_deg (Fin v) [neg, pos] = Inr (deg, mn, sec, ref)
          \<and> 0 \<le> deg \<and> 0 \<le> mn \<and> mn \<le> 59 \<and> 0 \<le> sec \<and> sec \<le> 60))
   \<and> binary64 (1 - 1 / 2 ^ 53)
   \<and> to_deg (Fin (1 - 1 / 2 ^ 53)) [''S'', ''N''] = Inr (0, 59, 60, ''N'')"
proof (intro conjI impI)
  assume h: "binary64 v \<and> \<bar>v\<bar> \<le> 180"
  then have "fl v = v" by (simp add: binary64_def)
  from dms_spec_ranges [OF this, of neg pos]
  show "\<exists>deg mn sec ref. to_deg (Fin v) [neg, pos] = Inr (deg, mn, sec, ref)
          \<and> 0 \<le> deg \<and> 0 \<le> mn \<and> mn \<le> 59 \<and> 0 \<le> sec \<and> sec \<le> 60"
    by (cases "dms_spec v neg pos") (simp add: to_deg_finite)
next
  show "binary64 (1 - 1 / 2 ^ 53)" by code_simp
  show "to_deg (Fin (1 - 1 / 2 ^ 53)) [''S'', ''N''] = Inr (0, 59, 60, ''N'')" by code_simp
qed

theorem dms_ranges_witness:
  "binary64 (fl (- 2521380572 / 100000000)) \<and> \<bar>fl (- 2521380572 / 100000000)\<bar> \<le> 180
   \<and> to_deg (Fin (fl (- 2521380572 / 100000000))) [''S'', ''N'']
        = Inr (25, 12, 6994736206377931 / 140737488355328, ''S'')
   \<and> (\<exists>deg mn sec ref. to_deg (Fin (fl (- 2521380572 / 100000000))) [''S'', ''N''] = Inr (deg, mn, sec, ref)
          \<and> 0 \<le> deg \<and> 0 \<le> mn \<and> mn \<le> 59 \<and> 0 \<le> sec \<and> sec \<le> 60)"
proof -
  have h: "binary64 (fl (- 2521380572 / 100000000)) \<and> \<bar>fl (- 2521380572 / 100000000)\<bar> \<le> 180"
    by code_simp
  have e: "to_deg (Fin (fl (- 2521380572 / 100000000))) [''S'', ''N'']
        = Inr (25, 12, 6994736206377931 / 140737488355328, ''S'')" by code_simp
  from dms_ranges_and_sec_60 [of "fl (- 2521380572 / 100000000)" "''S''" "''N''"] h e
  show ?thesis by blast
qed

text \<open>
  C2. For every float \<open>v\<close> with \<open>|v| \<le> 180\<close>, decoding the tuple that \<^verbatim>\<open>to_deg\<close> returns
  (\<open>deg + min/60 + sec/3600\<close>, negated when the reference is the negative one) gives \<open>v\<close>
  to within \<open>10\<^sup>-\<^sup>5\<close>.
\<close>

theorem dms_round_trip:
  assumes "binary64 v" and "\<bar>v\<bar> \<le> 180" and "neg \<noteq> pos"
  shows "\<exists>t. to_deg (Fin v) [neg, pos] = Inr t \<and> \<bar>decode_dms neg t - v\<bar> \<le> 1 / 100000"
proof -
  obtain deg mn sec ref where d: "dms_spec v neg pos = (deg, mn, sec, ref)"
    by (cases "dms_spec v neg pos")
  let ?D = "of_int deg + of_int mn / 60 + sec / 3600 :: rat"
  from dms_spec_error [of v neg pos] d
  have D: "0 \<le> ?D" "\<bar>?D - \<bar>v\<bar>\<bar> \<le> 1 / 100000" by simp_all
  from d have r: "ref = (if v < 0 then neg else if 0 < v then pos else [])"
    by (simp add: dms_spec_def Let_def)
  have "\<bar>decode_dms neg (deg, mn, sec, ref) - v\<bar> \<le> 1 / 100000"
  proof (cases "v < 0")
    case True
    with r have e: "decode_dms neg (deg, mn, sec, ref) = - ?D" by (simp add: decode_dms_def)
    have "\<bar>- ?D - v\<bar> \<le> 1 / 100000" using True D(2) by linarith
    then show ?thesis by (simp only: e)
  next
    case False
    show ?thesis
    proof (cases "0 < v")
      case True
      with r False assms(3) have e: "decode_dms neg (deg, mn, sec, ref) = ?D"
        by (simp add: decode_dms_def)
      have "\<bar>?D - v\<bar> \<le> 1 / 100000" using True D(2) by linarith
      then show ?thesis by (simp only: e)
    next
      case False
      with \<open>\<not> v < 0\<close> have v: "v = 0" by simp
      have e: "decode_dms neg (deg, mn, sec, ref) = ?D \<or> decode_dms neg (deg, mn, sec, ref) = - ?D"
        by (simp add: decode_dms_def)
      have "\<bar>?D - v\<bar> \<le> 1 / 100000" "\<bar>- ?D - v\<bar> \<le> 1 / 100000"
        using v D by linarith+
      with e show ?thesis by metis
    qed
  qed
  with d show ?thesis by (simp add: to_deg_finite)
qed

theorem dms_round_trip_witness:
  "binary64 (fl (- 2521380572 / 100000000)) \<and> \<bar>fl (- 2521380572 / 100000000)\<bar> \<le> 180 \<and> ''S'' \<noteq> ''N''
   \<and> decode_dms ''S'' (25, 12, 6994736206377931 / 140737488355328, ''S'')
        = - (25 + 12 / 60 + (6994736206377931 / 140737488355328) / 3600)
   \<and> (\<exists>t. to_deg (Fin (fl (- 2521380572 / 100000000))) [''S'', ''N''] = Inr t
          \<and> \<bar>decode_dms ''S'' t - fl (- 2521380572 / 100000000)\<bar> \<le> 1 / 100000)"
proof -
  have h: "binary64 (fl (- 2521380572 / 100000000))" "\<bar>fl (- 2521380572 / 100000000)\<bar> \<le> 180"
    by code_simp+
  have n: "''S'' \<noteq> ''N''" by simp
  have e: "decode_dms ''S'' (25, 12, 6994736206377931 / 140737488355328, ''S'')
        = - (25 + 12 / 60 + (6994736206377931 / 140737488355328) / 3600)"
    by (simp add: decode_dms_def)
  from dms_round_trip [OF h n] h n e show ?thesis by blast
qed

text \<open>
  C1, as the specification words it (for every float value), fails: on an infinity and on NaN
  \<^verbatim>\<open>int(abs_value)\<close> raises, and \<^verbatim>\<open>to_deg\<close> returns nothing.
\<close>

theorem to_deg_infinite_counterexample:
  "to_deg PInf [''S'', ''N''] = Inl OverflowError \<and> to_deg NaN [''S'', ''N''] = Inl ValueError"
  by (simp add: to_deg_def lt0_def gt0_def py_index_def py_int_def pyabs_def)

text \<open>
  C1, amended. For every finite float and every pair of references \<^verbatim>\<open>to_deg\<close> returns the
  tuple of the contract: \<open>deg\<close> the integer part of the absolute value, \<open>min\<close> the integer
  part of the fractional part times 60, \<open>sec\<close> the remainder times 60 rounded to five decimal
  places, and the reference that is the negative one below 0, the positive one above 0 and
  the empty text at 0. On an infinity it raises OverflowError and on NaN ValueError.
\<close>

theorem to_deg_contract:
  "to_deg (Fin v) [negativeRef, positiveRef] = Inr (dms_spec v negativeRef positiveRef)
   \<and> to_deg PInf [negativeRef, positiveRef] = Inl OverflowError
   \<and> to_deg NInf [negativeRef, positiveRef] = Inl OverflowError
   \<and> to_deg NaN [negativeRef, positiveRef] = Inl ValueError"
  by (simp add: to_deg_finite) (simp add: to_deg_def lt0_def gt0_def py_index_def py_int_def pyabs_def)

section \<open>Claims about the exact fraction\<close>

lemma quotient_of_decimal:
  assumes "quotient_of r = (n, d)" "r = of_int k / 100000"
  shows "0 < d \<and> coprime n d \<and> of_int n / of_int d = r \<and> d dvd 100000"
proof -
  have d: "0 < d" using assms(1) by (rule quotient_of_denom_pos)
  have c: "coprime n d" using assms(1) by (rule quotient_of_coprime)
  have r: "r = of_int n / of_int d" using assms(1) by (rule quotient_of_div)
  from r assms(2) d have "(of_int n :: rat) * 100000 = of_int k * of_int d"
    by (simp add: field_simps)
  then have "(of_int (n * 100000) :: rat) = of_int (k * d)" by simp
  then have "n * 100000 = k * d" by (simp only: of_int_eq_iff)
  then have "d dvd n * 100000" by simp
  with c have "d dvd 100000" by (simp add: coprime_commute coprime_dvd_mult_right_iff)
  with d c r show ?thesis by simp
qed

lemma shortest_step:
  "shortest x E n (Suc k) =
     (if fl (cand x E n) = x then cand x E n
      else if fl (cand2 x E n) = x then cand2 x E n
      else shortest x E (Suc n) k)"
  by (simp add: cand_def cand2_def Let_def)

lemma shortest_finds:
  assumes "\<And>m. n \<le> m \<Longrightarrow> m < n1 \<Longrightarrow> fl (cand x E m) = x \<Longrightarrow> cand x E m = d"
      and "\<And>m. n \<le> m \<Longrightarrow> m < n1 \<Longrightarrow> fl (cand2 x E m) = x \<Longrightarrow> cand2 x E m = d"
      and "cand x E n1 = d" and "fl d = x" and "n \<le> n1" and "n1 - n < fuel"
  shows "shortest x E n fuel = d"
  using assms
proof (induction fuel arbitrary: n)
  case 0
  then show ?case by simp
next
  case (Suc k)
  show ?case
  proof (cases "n = n1")
    case True
    with Suc.prems(3,4) show ?thesis by (simp add: shortest_step del: shortest.simps)
  next
    case False
    with Suc.prems(5) have lt: "n < n1" by simp
    show ?thesis
    proof (cases "fl (cand x E n) = x")
      case True
      with Suc.prems(1) [of n] lt show ?thesis by (simp add: shortest_step del: shortest.simps)
    next
      case no1: False
      show ?thesis
      proof (cases "fl (cand2 x E n) = x")
        case True
        with Suc.prems(2) [of n] lt no1 show ?thesis by (simp add: shortest_step del: shortest.simps)
      next
        case False
        have "shortest x E (Suc n) k = d"
        proof (rule Suc.IH)
          show "cand x E m = d" if "Suc n \<le> m" "m < n1" "fl (cand x E m) = x" for m
            using that Suc.prems(1) [of m] by simp
          show "cand2 x E m = d" if "Suc n \<le> m" "m < n1" "fl (cand2 x E m) = x" for m
            using that Suc.prems(2) [of m] by simp
          show "cand x E n1 = d" "fl d = x" by (rule Suc.prems)+
          show "Suc n \<le> n1" using lt by simp
          show "n1 - Suc n < k" using Suc.prems(6) lt by simp
        qed
        with no1 False show ?thesis by (simp add: shortest_step del: shortest.simps)
      qed
    qed
  qed
qed

lemma rhe_near:
  assumes "\<bar>y - of_int k\<bar> < 1 / 2"
  shows "rhe y = k"
proof -
  from rhe_err [of y] assms have "\<bar>(of_int (rhe y) :: rat) - of_int k\<bar> < 1" by linarith
  then have "\<bar>(of_int (rhe y - k) :: rat)\<bar> < of_int 1" by simp
  then have "\<bar>rhe y - k\<bar> < 1" by (simp only: of_int_abs [symmetric] of_int_less_iff)
  then show ?thesis by simp
qed

lemma other_int_near:
  "\<bar>of_int (other_int r (rhe r)) - r\<bar> \<le> 1" "0 \<le> r \<Longrightarrow> 0 \<le> other_int r (rhe r)"
proof -
  have e: "\<bar>of_int (rhe r) - r\<bar> \<le> 1 / 2" by (rule rhe_err)
  show "\<bar>of_int (other_int r (rhe r)) - r\<bar> \<le> 1"
  proof (cases "of_int (rhe r) < r")
    case True
    then have "other_int r (rhe r) = rhe r + 1" by (simp add: other_int_def)
    then have "(of_int (other_int r (rhe r)) :: rat) = of_int (rhe r) + 1" by simp
    with e True show ?thesis by linarith
  next
    case False
    show ?thesis
    proof (cases "r < of_int (rhe r)")
      case True
      with False have "other_int r (rhe r) = rhe r - 1" by (simp add: other_int_def)
      then have "(of_int (other_int r (rhe r)) :: rat) = of_int (rhe r) - 1" by simp
      with e True show ?thesis by linarith
    next
      case nt: False
      with False have "other_int r (rhe r) = rhe r" by (simp add: other_int_def)
      with e show ?thesis by simp
    qed
  qed
  show "0 \<le> other_int r (rhe r)" if "0 \<le> r"
  proof (cases "r < of_int (rhe r)")
    case True
    with that have "(of_int 0 :: rat) < of_int (rhe r)" by simp
    then have "0 < rhe r" by (simp only: of_int_less_iff)
    with True show ?thesis by (simp add: other_int_def)
  next
    case False
    from that have "of_int 0 \<le> r" by simp
    then have "0 \<le> rhe r" by (rule rhe_ge)
    with False show ?thesis by (simp add: other_int_def)
  qed
qed

lemma fl_ten10: "fl (10 ^ 10) = 10 ^ 10"
  by code_simp

lemma repr_decimal_large:
  assumes "11 \<le> k" "k \<le> 10 ^ 15"
  shows "repr_val (fl (of_int k / 100000)) = of_int k / 100000"
proof -
  define d :: rat where "d = of_int k / 100000"
  define x where "x = fl d"
  define E where "E = ilog 10 x"
  define n1 where "n1 = nat (E + 6)"
  have kr: "(11::rat) \<le> of_int k" "(of_int k :: rat) \<le> 10 ^ 15"
    using assms by (simp_all only: of_int_le_iff [symmetric, where ?'a = rat] of_int_numeral of_int_power)
  have d_lo: "11 / 100000 \<le> d" and d_hi: "d \<le> 10 ^ 10" using kr by (simp_all add: d_def)
  have d0: "0 \<le> d" using d_lo by simp
  have "d < 2 powi (33 + 1)" using d_hi by simp
  from fl_err [OF d0 this] have "\<bar>x - d\<bar> \<le> 1 / 2 ^ 20"
    by (simp add: x_def power_int_minus_divide)
  then have xd: "\<bar>x - d\<bar> \<le> 1 / 1048576" by simp
  have x_lo: "1 / 10000 \<le> x" using xd d_lo by linarith
  have x0: "0 < x" using x_lo by simp
  have x_hi: "x \<le> 10 ^ 10" using fl_mono [OF d0 d_hi] by (simp only: x_def fl_ten10)
  have "10 powi (- 4) \<le> x" using x_lo by (simp add: power_int_minus_divide)
  then have E_lo: "- 4 \<le> E" unfolding E_def using ilog_ge [of 10 x "- 4"] x0 by simp
  have "x < 10 powi (10 + 1)" using x_hi by simp
  then have E_hi: "E \<le> 10" unfolding E_def using ilog_le [of 10 x 10] x0 by simp
  have Ex: "10 powi E \<le> x" unfolding E_def using ilog_bounds [of 10 x] x0 by simp
  have n1: "int n1 = E + 6" "1 \<le> n1" "n1 \<le> 16" using E_lo E_hi by (simp_all add: n1_def)
  have B: "cand x E n1 = d"
  proof -
    have e: "E - int n1 + 1 = - 5" using n1(1) by simp
    have "x * 100000 - of_int k = (x - d) * 100000" by (simp add: d_def algebra_simps)
    then have "\<bar>x * 100000 - of_int k\<bar> = \<bar>x - d\<bar> * \<bar>100000\<bar>" by (simp only: abs_mult)
    then have "\<bar>x * 100000 - of_int k\<bar> = \<bar>x - d\<bar> * 100000" by simp
    also have "\<dots> \<le> 1 / 1048576 * 100000" using xd by (intro mult_right_mono) simp_all
    also have "\<dots> < 1 / 2" by simp
    finally have "rhe (x * 100000) = k" by (rule rhe_near)
    then show ?thesis by (simp add: cand_def e power_int_minus_divide d_def)
  qed
  have A: "of_int N * 10 powi (E - int m + 1) = d"
    if m: "1 \<le> m" "m < n1" and N0: "0 \<le> N"
      and Nx: "\<bar>of_int N - x / 10 powi (E - int m + 1)\<bar> \<le> 1"
      and f: "fl (of_int N * 10 powi (E - int m + 1)) = x" for m N
  proof -
    define j where "j = E - int m + 1"
    define q :: rat where "q = 10 powi j"
    define c where "c = of_int N * q"
    have j: "- 4 \<le> j" "j \<le> E" using m n1(1) by (simp_all add: j_def)
    have q0: "0 < q" by (simp add: q_def zero_less_power_int)
    have "q \<le> 10 powi E" unfolding q_def using j(2) by (intro power_int_increasing) simp_all
    with Ex have qx: "q \<le> x" by simp
    have c0: "0 \<le> c" using q0 N0 by (simp add: c_def)
    from Nx have "\<bar>of_int N - x / q\<bar> \<le> 1" by (simp add: q_def j_def)
    then have "\<bar>of_int N - x / q\<bar> * q \<le> 1 * q" using q0 by (intro mult_right_mono) simp_all
    moreover have "\<bar>of_int N - x / q\<bar> * q = \<bar>c - x\<bar>"
    proof -
      have "c - x = (of_int N - x / q) * q" using q0 by (simp add: c_def algebra_simps)
      then show ?thesis using q0 by (simp add: abs_mult)
    qed
    ultimately have cx: "\<bar>c - x\<bar> \<le> q" by simp
    have "x \<le> 10000000000" using x_hi by simp
    with cx qx have "c \<le> 20000000000" by linarith
    then have "c < 2 powi (34 + 1)" by simp
    from fl_err [OF c0 this] f have "\<bar>x - c\<bar> \<le> 1 / 2 ^ 19"
      by (simp add: c_def q_def j_def power_int_minus_divide)
    then have xc: "\<bar>x - c\<bar> \<le> 1 / 524288" by simp
    define M where "M = N * 10 ^ nat (j + 5)"
    have "q = 10 powi (j + 5) * 10 powi (- 5)"
    proof -
      have "(10::rat) powi ((j + 5) + (- 5)) = 10 powi (j + 5) * 10 powi (- 5)"
        by (rule power_int_add) simp
      then show ?thesis by (simp add: q_def)
    qed
    also have "\<dots> = of_int (10 ^ nat (j + 5)) / 100000"
      using j(1) by (simp add: power_int_nonneg_exp power_int_minus_divide)
    finally have cM: "c = of_int M / 100000" by (simp add: c_def M_def)
    have "\<bar>c - d\<bar> < 1 / 100000" using xc xd by linarith
    moreover have "c - d = (of_int M - of_int k) / 100000" by (simp add: cM d_def diff_divide_distrib)
    ultimately have "\<bar>(of_int M :: rat) - of_int k\<bar> < 1" by simp
    then have "\<bar>(of_int (M - k) :: rat)\<bar> < of_int 1" by simp
    then have "\<bar>M - k\<bar> < 1" by (simp only: of_int_abs [symmetric] of_int_less_iff)
    then have "M = k" by simp
    with cM show ?thesis by (simp add: d_def c_def q_def j_def)
  qed
  have "shortest x E 1 17 = d"
  proof (rule shortest_finds [where ?n1.0 = n1])
    show "cand x E m = d" if h: "1 \<le> m" "m < n1" "fl (cand x E m) = x" for m
    proof -
      let ?r = "x / 10 powi (E - int m + 1)"
      have "0 < ?r" using x0 by (simp add: zero_less_power_int)
      then have "of_int 0 \<le> ?r" by simp
      then have "0 \<le> rhe ?r" by (rule rhe_ge)
      moreover have "\<bar>of_int (rhe ?r) - ?r\<bar> \<le> 1" using rhe_err [of ?r] by linarith
      ultimately show ?thesis using A [of m "rhe ?r"] h by (simp add: cand_def)
    qed
    show "cand2 x E m = d" if h: "1 \<le> m" "m < n1" "fl (cand2 x E m) = x" for m
    proof -
      let ?r = "x / 10 powi (E - int m + 1)"
      have "0 \<le> ?r" using x0 by (simp add: zero_le_power_int)
      from other_int_near(2) [OF this] other_int_near(1) [of ?r]
      show ?thesis using A [of m "other_int ?r (rhe ?r)"] h by (simp add: cand2_def)
    qed
    show "cand x E n1 = d" by (rule B)
    show "fl d = x" by (simp add: x_def)
    show "1 \<le> n1" by (rule n1(2))
    show "n1 - 1 < 17" using n1(3) by simp
  qed
  with x0 show ?thesis by (simp add: repr_val_def d_def x_def E_def)
qed

lemma cand_neg: "cand (- x) E n = - cand x E n"
proof -
  have "- x / 10 powi (E - int n + 1) = - (x / 10 powi (E - int n + 1))" by simp
  then show ?thesis by (simp add: cand_def rhe_neg)
qed

lemma other_int_neg: "other_int (- r) (- a) = - other_int r a"
  by (simp add: other_int_def)

lemma cand2_neg: "cand2 (- x) E n = - cand2 x E n"
proof -
  have "- x / 10 powi (E - int n + 1) = - (x / 10 powi (E - int n + 1))" by simp
  then show ?thesis by (simp add: cand2_def rhe_neg other_int_neg)
qed

lemma shortest_neg: "shortest (- x) E n fuel = - shortest x E n fuel"
proof (induction fuel arbitrary: n)
  case 0
  then show ?case by simp
next
  case (Suc k)
  have "fl (- cand x E n) = - x \<longleftrightarrow> fl (cand x E n) = x"
       "fl (- cand2 x E n) = - x \<longleftrightarrow> fl (cand2 x E n) = x" by (simp_all add: fl_neg)
  with Suc show ?case by (simp add: shortest_step cand_neg cand2_neg del: shortest.simps)
qed

lemma repr_val_neg: "repr_val (- x) = - repr_val x"
  by (simp add: repr_val_def shortest_neg)

lemma repr_decimal_small:
  "repr_val (fl (of_int 0 / 100000)) = of_int 0 / 100000"
  "repr_val (fl (of_int 1 / 100000)) = of_int 1 / 100000"
  "repr_val (fl (of_int 2 / 100000)) = of_int 2 / 100000"
  "repr_val (fl (of_int 3 / 100000)) = of_int 3 / 100000"
  "repr_val (fl (of_int 4 / 100000)) = of_int 4 / 100000"
  "repr_val (fl (of_int 5 / 100000)) = of_int 5 / 100000"
  "repr_val (fl (of_int 6 / 100000)) = of_int 6 / 100000"
  "repr_val (fl (of_int 7 / 100000)) = of_int 7 / 100000"
  "repr_val (fl (of_int 8 / 100000)) = of_int 8 / 100000"
  "repr_val (fl (of_int 9 / 100000)) = of_int 9 / 100000"
  "repr_val (fl (of_int 10 / 100000)) = of_int 10 / 100000"
  by code_simp+

lemma repr_decimal_nonneg:
  assumes "0 \<le> k" "k \<le> 10 ^ 15"
  shows "repr_val (fl (of_int k / 100000)) = of_int k / 100000"
proof -
  consider "k = 0" | "k = 1" | "k = 2" | "k = 3" | "k = 4" | "k = 5" | "k = 6" | "k = 7"
    | "k = 8" | "k = 9" | "k = 10" | "11 \<le> k" using assms(1) by atomize_elim arith
  then show ?thesis
  proof cases
    case 12
    then show ?thesis using assms(2) by (rule repr_decimal_large)
  qed (simp_all only: repr_decimal_small)
qed

lemma repr_decimal:
  assumes "\<bar>k\<bar> \<le> 10 ^ 15"
  shows "repr_val (fl (of_int k / 100000)) = of_int k / 100000"
proof (cases "0 \<le> k")
  case True
  with assms show ?thesis by (simp add: repr_decimal_nonneg)
next
  case False
  with assms have "0 \<le> - k" "- k \<le> 10 ^ 15" by simp_all
  from repr_decimal_nonneg [OF this]
  have "repr_val (fl (of_int (- k) / 100000)) = of_int (- k) / 100000" .
  moreover have "(of_int k :: rat) / 100000 = - (of_int (- k) / 100000)" by simp
  ultimately show ?thesis by (simp only: fl_neg repr_val_neg)
qed

lemma fl_shortest: "fl x = x \<Longrightarrow> fl (shortest x E n fuel) = x"
proof (induction fuel arbitrary: n)
  case 0
  then show ?case by simp
next
  case (Suc k)
  then show ?case by (simp add: shortest_step del: shortest.simps)
qed

lemma fl_repr_val: "fl x = x \<Longrightarrow> fl (repr_val x) = x"
proof (cases "x = 0")
  case True
  then show ?thesis by (simp add: repr_val_def fl_def)
next
  case False
  assume "fl x = x"
  with False show ?thesis by (simp add: repr_val_def fl_shortest)
qed

text \<open>At a power of two the nearer sixteen-digit decimal does not read back and the farther
  one does; the text of \<open>2\<^sup>8\<^sup>9\<close> is \<^verbatim>\<open>6.189700196426902e+26\<close>.\<close>

lemma change_to_rational_power_of_two:
  "change_to_rational (PyFloat (Fin (2 ^ 89))) = Inr (618970019642690200000000000, 1)"
  by code_simp

text \<open>
  C3. For every float whose text is a decimal with at most five fractional digits,
  \<^verbatim>\<open>change_to_rational\<close> returns a pair in lowest terms, with a positive denominator that
  divides \<open>10\<^sup>5\<close>, whose quotient is exactly the number the text denotes; no artefact of
  the binary representation enters, since the fraction is made from the text; and dividing
  the numerator by the denominator as floats gives the input float again. Every decimal
  \<open>k / 10\<^sup>5\<close> of magnitude up to \<open>10\<^sup>1\<^sup>0\<close>, read as a float, is rendered as itself and so
  comes back as exactly \<open>k / 10\<^sup>5\<close> in lowest terms. An integer \<open>m\<close> gives \<open>(m, 1)\<close>.
\<close>

theorem exact_fraction_of_text:
  "(repr_val x = of_int k / 100000 \<longrightarrow>
      (\<exists>n d. change_to_rational (PyFloat (Fin x)) = Inr (n, d) \<and> 0 < d \<and> coprime n d
           \<and> of_int n / of_int d = repr_val x \<and> d dvd 100000
           \<and> (binary64 x \<longrightarrow> fl (of_int n / of_int d) = x)))
   \<and> (\<bar>k\<bar> \<le> 10 ^ 15 \<longrightarrow>
        change_to_rational (PyFloat (Fin (fl (of_int k / 100000)))) = Inr (quotient_of (of_int k / 100000)))
   \<and> change_to_rational (PyInt m) = Inr (m, 1)"
proof (intro conjI impI)
  assume r: "repr_val x = of_int k / 100000"
  obtain n d where q: "quotient_of (repr_val x) = (n, d)" by (cases "quotient_of (repr_val x)")
  from quotient_of_decimal [OF q r]
  have p: "0 < d" "coprime n d" "of_int n / of_int d = repr_val x" "d dvd 100000" by simp_all
  have "fl (of_int n / of_int d) = x" if "binary64 x"
    using that p(3) by (simp add: binary64_def fl_repr_val)
  with p q
  show "\<exists>n d. change_to_rational (PyFloat (Fin x)) = Inr (n, d) \<and> 0 < d \<and> coprime n d
           \<and> of_int n / of_int d = repr_val x \<and> d dvd 100000
           \<and> (binary64 x \<longrightarrow> fl (of_int n / of_int d) = x)"
    by (simp add: change_to_rational_def)
next
  assume "\<bar>k\<bar> \<le> 10 ^ 15"
  then show "change_to_rational (PyFloat (Fin (fl (of_int k / 100000)))) = Inr (quotient_of (of_int k / 100000))"
    by (simp add: change_to_rational_def repr_decimal)
next
  show "change_to_rational (PyInt m) = Inr (m, 1)" by (rule change_to_rational_int)
qed

theorem exact_fraction_witness:
  "repr_val (fl (4970059 / 100000)) = of_int 4970059 / 100000
   \<and> \<bar>4970059\<bar> \<le> (10 ^ 15 :: int)
   \<and> binary64 (fl (4970059 / 100000))
   \<and> change_to_rational (PyFloat (Fin (fl (4970059 / 100000)))) = Inr (4970059, 100000)
   \<and> (\<exists>n d. change_to_rational (PyFloat (Fin (fl (4970059 / 100000)))) = Inr (n, d) \<and> 0 < d
          \<and> coprime n d \<and> of_int n / of_int d = repr_val (fl (4970059 / 100000)) \<and> d dvd 100000
          \<and> fl (of_int n / of_int d) = fl (4970059 / 100000))"
proof -
  have r: "repr_val (fl (4970059 / 100000)) = of_int 4970059 / 100000" by code_simp
  have b: "\<bar>4970059\<bar> \<le> (10 ^ 15 :: int)" by simp
  have f: "binary64 (fl (4970059 / 100000))" by code_simp
  have q: "quotient_of (of_int 4970059 / 100000) = (4970059, 100000)" by code_simp
  from exact_fraction_of_text [of "fl (4970059 / 100000)" 4970059] r b f
  have e: "\<exists>n d. change_to_rational (PyFloat (Fin (fl (4970059 / 100000)))) = Inr (n, d) \<and> 0 < d
          \<and> coprime n d \<and> of_int n / of_int d = repr_val (fl (4970059 / 100000)) \<and> d dvd 100000
          \<and> fl (of_int n / of_int d) = fl (4970059 / 100000)"
    and c: "change_to_rational (PyFloat (Fin (fl (of_int 4970059 / 100000))))
              = Inr (quotient_of (of_int 4970059 / 100000))"
    by blast+
  from c have c': "change_to_rational (PyFloat (Fin (fl (4970059 / 100000)))) = Inr (4970059, 100000)"
    unfolding q by simp
  from r b f c' e show ?thesis by blast
qed

end
